theory Spec2Isabelle
  imports Complex_Main "HOL-Library.AList" "HOL-Library.Word"
begin

section \<open>The captcha trainer: \<^verbatim>\<open>src/image_processing/train.py\<close>\<close>

text \<open>
  The script has three parts: \<^verbatim>\<open>create_model\<close> describes a Keras network,
  the class \<^verbatim>\<open>ImageSequence\<close> feeds batches of labelled images to the training
  loop, and \<^verbatim>\<open>main\<close> checks the command line and drives the backend.

  Python values are modelled as follows. A \<^verbatim>\<open>str\<close> is a \<^typ>\<open>string\<close>, an
  \<^verbatim>\<open>int\<close> an \<^typ>\<open>int\<close>, a length a \<^typ>\<open>nat\<close>. A \<^verbatim>\<open>dict\<close> is an
  association list in insertion order: \<^const>\<open>AList.update\<close> overwrites the value of
  a key that is present, in place, and appends a new key at the end, as a Python dict
  does; \<^const>\<open>AList.delete\<close> removes a key. An exception is a value \<open>Inl e\<close> of
  type \<open>error + 'a\<close>. Whatever the operating system, the random generator, the
  image library, numpy's allocator and Keras answer is an input of the model.
\<close>

datatype error =
    IndexError
  | KeyError
  | ValueError
  | ZeroDivisionError
  | OSError
  | MemoryError
  | ImageError
  | BackendError

subsection \<open>Strings\<close>

text \<open>\<^verbatim>\<open>s.split(sep)[0]\<close> for a one-character separator: the text before its first
  occurrence, the whole of \<open>s\<close> when there is none.\<close>

definition split_first :: "char \<Rightarrow> string \<Rightarrow> string" where
  "split_first sep s = takeWhile (\<lambda>c. c \<noteq> sep) s"

text \<open>\<^verbatim>\<open>s.find(ch)\<close> for a one-character \<open>ch\<close>: the lowest index where it occurs,
  \<open>-1\<close> when it does not.\<close>

fun str_find :: "string \<Rightarrow> char \<Rightarrow> int" where
  "str_find [] ch = - 1"
| "str_find (c # cs) ch =
     (if c = ch then 0 else (let r = str_find cs ch in if r < 0 then - 1 else r + 1))"

subsection \<open>The network \<^verbatim>\<open>create_model\<close>\<close>

















subsection \<open>The driver \<^verbatim>\<open>main\<close>\<close>

text \<open>
  The namespace that \<^verbatim>\<open>argparse\<close> returns: a flag that is absent from the command
  line is \<open>None\<close>.
\<close>

record args =
  args_width :: "int option"
  args_height :: "int option"
  args_length :: "int option"
  args_batch_size :: "int option"
  args_train_dataset :: "string option"
  args_validate_dataset :: "string option"
  args_output_model_name :: "string option"
  args_input_model :: "string option"
  args_epochs :: "int option"
  args_symbols :: "string option"

text \<open>
  What \<^verbatim>\<open>main\<close> does is the list of things it prints and of calls it makes to the
  file system and the backend, with the way it ends: it returns, it exits with a
  status, or an exception leaves it. The calls, in the order of lines 155 to 199:
  reading the symbols file, \<^verbatim>\<open>create_model\<close>, \<^verbatim>\<open>load_weights\<close>, \<^verbatim>\<open>compile\<close> (with
  the number of metrics), \<^verbatim>\<open>summary\<close>, the two feeders, the callbacks (with the
  checkpoint path), writing the architecture file, \<^verbatim>\<open>fit\<close> (with the number of
  epochs), \<^verbatim>\<open>save_weights\<close>.
\<close>

datatype exn = KeyboardInterrupt | OtherException string

datatype call =
    ReadSymbols string
  | CreateModel int nat "int \<times> int \<times> int"
  | LoadWeights string
  | Compile nat
  | Summary
  | TrainingData string int int string int int
  | ValidationData string int int string int int
  | Callbacks string
  | WriteJson string
  | Fit int
  | SaveWeights string

datatype event = Print string | Call call

datatype outcome = Returned | Exit int | Raised exn

text \<open>
  The outside of \<^verbatim>\<open>main\<close>: the stripped first line of each file, and for each call
  the exception it raises, if any.
\<close>

record world =
  symbols_line :: "string \<Rightarrow> string"
  raises :: "call \<Rightarrow> exn option"

text \<open>Calls made one after the other, outside any \<^verbatim>\<open>try\<close>: the first exception ends them.\<close>

fun perform :: "(call \<Rightarrow> exn option) \<Rightarrow> call list \<Rightarrow> event list \<times> exn option" where
  "perform r [] = ([], None)"
| "perform r (c # cs) =
     (case r c of
        Some e \<Rightarrow> ([Call c], Some e)
      | None \<Rightarrow> (case perform r cs of (tr, res) \<Rightarrow> (Call c # tr, res)))"

text \<open>Lines 154 to 185, everything between the checks of the flags and the \<^verbatim>\<open>try\<close>.\<close>

definition setup_calls ::
  "int \<Rightarrow> int \<Rightarrow> int \<Rightarrow> int \<Rightarrow> string \<Rightarrow> string \<Rightarrow> string \<Rightarrow> string option \<Rightarrow> string \<Rightarrow> string
     \<Rightarrow> call list" where
  "setup_calls width height clen batch train_dataset validate_dataset output_model_name input_model
     symbols captcha_symbols =
     [ReadSymbols symbols,
      CreateModel clen (length captcha_symbols) (height, width, 3)] @
     (case input_model of None \<Rightarrow> [] | Some m \<Rightarrow> [LoadWeights m]) @
     [Compile (nat clen),
      Summary,
      TrainingData train_dataset batch clen captcha_symbols width height,
      ValidationData validate_dataset batch clen captcha_symbols width height,
      Callbacks (output_model_name @ ''.keras''),
      WriteJson (output_model_name @ ''.json'')]"

text \<open>Lines 187 to 199: \<^verbatim>\<open>try: model.fit(...) except KeyboardInterrupt: ...\<close>\<close>

definition fit :: "world \<Rightarrow> int \<Rightarrow> string \<Rightarrow> event list \<times> outcome" where
  "fit w epochs output_model_name =
     (case raises w (Fit epochs) of
        None \<Rightarrow> ([Call (Fit epochs)], Returned)
      | Some KeyboardInterrupt \<Rightarrow>
          ([Call (Fit epochs),
            Print (''KeyboardInterrupt caught, saving current weights as '' @
                   output_model_name @ ''_resume.h5''),
            Call (SaveWeights (output_model_name @ ''_resume.h5''))],
           (case raises w (SaveWeights (output_model_name @ ''_resume.h5'')) of
              None \<Rightarrow> Returned
            | Some e \<Rightarrow> Raised e))
      | Some e \<Rightarrow> ([Call (Fit epochs)], Raised e))"

text \<open>\<^verbatim>\<open>main\<close>, lines 118 to 199; \<^verbatim>\<open>exit(1)\<close> ends the process with status 1.\<close>

definition main :: "args \<Rightarrow> world \<Rightarrow> event list \<times> outcome" where
  "main a w =
     (case args_width a of
        None \<Rightarrow> ([Print ''Please specify the captcha image width''], Exit 1)
      | Some width \<Rightarrow>
     (case args_height a of
        None \<Rightarrow> ([Print ''Please specify the captcha image height''], Exit 1)
      | Some height \<Rightarrow>
     (case args_length a of
        None \<Rightarrow> ([Print ''Please specify the captcha length''], Exit 1)
      | Some clen \<Rightarrow>
     (case args_batch_size a of
        None \<Rightarrow> ([Print ''Please specify the training batch size''], Exit 1)
      | Some batch \<Rightarrow>
     (case args_epochs a of
        None \<Rightarrow> ([Print ''Please specify the number of training epochs to run''], Exit 1)
      | Some epochs \<Rightarrow>
     (case args_train_dataset a of
        None \<Rightarrow> ([Print ''Please specify the path to the training data set''], Exit 1)
      | Some train_dataset \<Rightarrow>
     (case args_validate_dataset a of
        None \<Rightarrow> ([Print ''Please specify the path to the validation data set''], Exit 1)
      | Some validate_dataset \<Rightarrow>
     (case args_output_model_name a of
        None \<Rightarrow> ([Print ''Please specify a name for the trained model''], Exit 1)
      | Some output_model_name \<Rightarrow>
     (case args_symbols a of
        None \<Rightarrow> ([Print ''Please specify the captcha symbols file''], Exit 1)
      | Some symbols \<Rightarrow>
         (case perform (raises w)
                 (setup_calls width height clen batch train_dataset validate_dataset
                    output_model_name (args_input_model a) symbols (symbols_line w symbols)) of
            (tr, Some e) \<Rightarrow> (tr, Raised e)
          | (tr, None) \<Rightarrow>
              (case fit w epochs output_model_name of
                 (tr', res) \<Rightarrow> (tr @ tr', res))))))))))))"

text \<open>
  The message for the first flag that is missing, in the order \<open>width\<close>, \<open>height\<close>,
  \<open>length\<close>, \<open>batch-size\<close>, \<open>epochs\<close>, \<open>train-dataset\<close>, \<open>validate-dataset\<close>,
  \<open>output-model-name\<close>, \<open>symbols\<close>; \<open>None\<close> when none is missing.
\<close>

definition first_missing :: "args \<Rightarrow> string option" where
  "first_missing a =
     (if args_width a = None then Some ''Please specify the captcha image width''
      else if args_height a = None then Some ''Please specify the captcha image height''
      else if args_length a = None then Some ''Please specify the captcha length''
      else if args_batch_size a = None then Some ''Please specify the training batch size''
      else if args_epochs a = None then Some ''Please specify the number of training epochs to run''
      else if args_train_dataset a = None then Some ''Please specify the path to the training data set''
      else if args_validate_dataset a = None then Some ''Please specify the path to the validation data set''
      else if args_output_model_name a = None then Some ''Please specify a name for the trained model''
      else if args_symbols a = None then Some ''Please specify the captcha symbols file''
      else None)"

subsection \<open>The label arrays\<close>

text \<open>
  A \<^verbatim>\<open>numpy\<close> array of shape \<open>(rows, columns)\<close> and dtype \<^verbatim>\<open>uint8\<close> is a list
  of rows. An integer index \<open>k\<close> along an axis of size \<open>n\<close> addresses position \<open>k\<close>
  when \<open>0 \<le> k < n\<close>, position \<open>n + k\<close> when \<open>-n \<le> k < 0\<close>, and raises
  \<^verbatim>\<open>IndexError\<close> otherwise.
\<close>

type_synonym array2 = "8 word list list"

definition np_index :: "nat \<Rightarrow> int \<Rightarrow> error + nat" where
  "np_index n k =
     (if 0 \<le> k \<and> k < int n then Inr (nat k)
      else if - int n \<le> k \<and> k < 0 then Inr (nat (int n + k))
      else Inl IndexError)"

text \<open>
  \<^verbatim>\<open>numpy.zeros((rows, columns), dtype=numpy.uint8)\<close>. A negative dimension raises
  \<^verbatim>\<open>ValueError\<close>. Whether an array of a given shape can be allocated is decided
  outside the script: \<open>allocate shape\<close> is \<open>None\<close> when it can, and the exception
  that \<^verbatim>\<open>numpy\<close> raises when it cannot (\<^verbatim>\<open>ValueError\<close> for a dimension beyond the
  largest allowed, \<^verbatim>\<open>MemoryError\<close> when the memory is not there).
\<close>

definition zeros :: "(nat list \<Rightarrow> error option) \<Rightarrow> int \<Rightarrow> nat \<Rightarrow> error + array2" where
  "zeros allocate rows columns =
     (if rows < 0 then Inl ValueError
      else (case allocate [nat rows, columns] of
              Some e \<Rightarrow> Inl e
            | None \<Rightarrow> Inr (replicate (nat rows) (replicate columns 0))))"

text \<open>\<^verbatim>\<open>a[i, :] = 0\<close>\<close>

definition clear_row :: "array2 \<Rightarrow> nat \<Rightarrow> error + array2" where
  "clear_row a i =
     (if i < length a then Inr (a[i := map (\<lambda>_. 0) (a ! i)]) else Inl IndexError)"

text \<open>\<^verbatim>\<open>a[i, k] = v\<close>\<close>

definition set_cell :: "array2 \<Rightarrow> nat \<Rightarrow> int \<Rightarrow> 8 word \<Rightarrow> error + array2" where
  "set_cell a i k v =
     (if i < length a then
        (case np_index (length (a ! i)) k of
           Inl e \<Rightarrow> Inl e
         | Inr c \<Rightarrow> Inr (a[i := (a ! i)[c := v]]))
      else Inl IndexError)"

text \<open>
  Lines 89 to 91, the loop \<^verbatim>\<open>for j, ch in enumerate(random_image_label)\<close>:
  \<open>y[j]\<close> is a Python list access, which raises \<^verbatim>\<open>IndexError\<close> when \<open>j\<close> is not
  below the number of arrays.
\<close>

fun encode :: "string \<Rightarrow> nat \<Rightarrow> string \<Rightarrow> nat \<Rightarrow> array2 list \<Rightarrow> error + array2 list" where
  "encode symbols i [] j y = Inr y"
| "encode symbols i (ch # rest) j y =
     (if j < length y then
        (case clear_row (y ! j) i of
           Inl e \<Rightarrow> Inl e
         | Inr a \<Rightarrow>
             (case set_cell a i (str_find symbols ch) 1 of
                Inl e \<Rightarrow> Inl e
              | Inr a' \<Rightarrow> encode symbols i rest (Suc j) (y[j := a'])))
      else Inl IndexError)"

subsection \<open>The feeder \<^verbatim>\<open>ImageSequence\<close>\<close>

record ImageSequence =
  directory_name :: string
  batch_size :: int
  captcha_length :: int
  captcha_symbols :: string
  captcha_width :: int
  captcha_height :: int
  files :: "(string \<times> string) list"
  used_files :: "string list"
  count :: nat

text \<open>\<^verbatim>\<open>dict(zip(map(lambda x: x.split('.')[0], file_list), file_list))\<close>: the
  entries are inserted from left to right.\<close>

definition make_files :: "string list \<Rightarrow> (string \<times> string) list" where
  "make_files file_list =
     fold (\<lambda>(k, v) d. AList.update k v d)
       (zip (map (split_first CHR ''.'') file_list) file_list) []"

text \<open>
  The constructor, lines 43 to 54. Its first argument is what
  \<^verbatim>\<open>os.listdir(directory_name)\<close> answers: the entries of the directory, or \<open>None\<close>
  when the call raises.
\<close>

definition init ::
  "string list option \<Rightarrow> string \<Rightarrow> int \<Rightarrow> int \<Rightarrow> string \<Rightarrow> int \<Rightarrow> int \<Rightarrow> error + ImageSequence" where
  "init listing directory batch n symbols width height =
     (case listing of
        None \<Rightarrow> Inl OSError
      | Some file_list \<Rightarrow>
          Inr \<lparr>directory_name = directory, batch_size = batch, captcha_length = n,
               captcha_symbols = symbols, captcha_width = width, captcha_height = height,
               files = make_files file_list, used_files = [], count = length file_list\<rparr>)"

text \<open>
  \<^verbatim>\<open>__len__\<close>, line 57: \<^verbatim>\<open>int(numpy.floor(self.count / self.batch_size))\<close>. The
  quotient is Python's true division, which raises on a zero divisor; it is taken
  here as the exact quotient of the two integers (the floating-point quotient has the
  same floor as long as both numbers are below \<open>2^52\<close>).
\<close>

definition len :: "ImageSequence \<Rightarrow> error + int" where
  "len self =
     (if batch_size self = 0 then Inl ZeroDivisionError
      else Inr \<lfloor>real (count self) / real_of_int (batch_size self)\<rfloor>)"

text \<open>
  What one iteration of the loop of \<^verbatim>\<open>__getitem__\<close> receives from outside:
  the answer of \<^verbatim>\<open>os.listdir\<close> if it is called now, the number the random generator
  produces for \<^verbatim>\<open>random.choice\<close>, and for every file name the pixel block that
  lines 80 to 83 compute from it (\<open>None\<close> when reading or converting it raises, or
  when its shape does not fit the slot \<open>X[i]\<close>).
\<close>

record 'img env =
  listdir :: "string list option"
  choice :: nat
  load_image :: "string \<Rightarrow> 'img option"

text \<open>Lines 66 to 71: the pool is rebuilt from a new listing when it is empty.\<close>

definition refill :: "'img env \<Rightarrow> ImageSequence \<Rightarrow> error + ImageSequence" where
  "refill e self =
     (if length (files self) = 0 then
        (case listdir e of
           None \<Rightarrow> Inl OSError
         | Some file_list \<Rightarrow> Inr (self\<lparr>used_files := [], files := make_files file_list\<rparr>))
      else Inr self)"

text \<open>
  Lines 66 to 77: a key is chosen among the keys of the pool
  (\<^verbatim>\<open>random.choice\<close> raises \<^verbatim>\<open>IndexError\<close> on an empty list), its file name is
  looked up, and the entry is popped and recorded in \<open>used_files\<close>. The result is
  the feeder afterwards with the chosen key and file name.
\<close>

definition draw :: "'img env \<Rightarrow> ImageSequence \<Rightarrow> error + (ImageSequence \<times> string \<times> string)" where
  "draw e self =
     (case refill e self of
        Inl err \<Rightarrow> Inl err
      | Inr self1 \<Rightarrow>
          (let keys = map fst (files self1) in
           if keys = [] then Inl IndexError
           else
             (let random_image_label = keys ! (choice e mod length keys) in
              case map_of (files self1) random_image_label of
                None \<Rightarrow> Inl KeyError
              | Some random_image_file \<Rightarrow>
                  Inr (self1\<lparr>files := AList.delete random_image_label (files self1),
                             used_files := used_files self1 @ [random_image_file]\<rparr>,
                       random_image_label, random_image_file))))"

text \<open>The body of the loop, lines 66 to 91, for row \<open>i\<close> of the batch.\<close>

definition sample ::
  "'img env \<Rightarrow> nat \<Rightarrow> ImageSequence \<times> 'img list \<times> array2 list
     \<Rightarrow> error + (ImageSequence \<times> 'img list \<times> array2 list)" where
  "sample e i s =
     (case s of (self, X, y) \<Rightarrow>
        (case draw e self of
           Inl err \<Rightarrow> Inl err
         | Inr (self', random_image_label, random_image_file) \<Rightarrow>
             (case load_image e random_image_file of
                None \<Rightarrow> Inl ImageError
              | Some processed_data \<Rightarrow>
                  if i < length X then
                    (case encode (captcha_symbols self') i
                            (split_first CHR ''_'' random_image_label) 0 y of
                       Inl err \<Rightarrow> Inl err
                     | Inr y' \<Rightarrow> Inr (self', X[i := processed_data], y'))
                  else Inl IndexError)))"

text \<open>The loop \<^verbatim>\<open>for i in range(self.batch_size)\<close>; iteration \<open>i\<close> receives \<open>env i\<close>.\<close>

fun batch_loop ::
  "(nat \<Rightarrow> 'img env) \<Rightarrow> nat list \<Rightarrow> ImageSequence \<times> 'img list \<times> array2 list
     \<Rightarrow> error + (ImageSequence \<times> 'img list \<times> array2 list)" where
  "batch_loop env [] s = Inr s"
| "batch_loop env (i # is) s =
     (case sample (env i) i s of
        Inl err \<Rightarrow> Inl err
      | Inr s' \<Rightarrow> batch_loop env is s')"

text \<open>
  Lines 62 and 63, the list of \<open>n\<close> label arrays: one call of \<^verbatim>\<open>numpy.zeros\<close> for
  each. The calls of one \<^verbatim>\<open>__getitem__\<close> are numbered, 0 for \<open>X\<close> and then 1, 2, ...
  for the label arrays, and \<open>allocate k\<close> answers for call \<open>k\<close>.
\<close>

fun label_arrays ::
  "(nat \<Rightarrow> nat list \<Rightarrow> error option) \<Rightarrow> nat \<Rightarrow> nat \<Rightarrow> int \<Rightarrow> nat \<Rightarrow> error + array2 list" where
  "label_arrays allocate 0 k rows columns = Inr []"
| "label_arrays allocate (Suc n) k rows columns =
     (case zeros (allocate k) rows columns of
        Inl e \<Rightarrow> Inl e
      | Inr a \<Rightarrow>
          (case label_arrays allocate n (Suc k) rows columns of
             Inl e \<Rightarrow> Inl e
           | Inr as \<Rightarrow> Inr (a # as)))"

text \<open>
  \<^verbatim>\<open>__getitem__\<close>, lines 60 to 93. \<open>X\<close> is allocated first, with the shape
  \<open>(batch_size, captcha_height, captcha_width, 3)\<close>, and starts as \<open>batch_size\<close> zero
  blocks; then the \<open>captcha_length\<close> label arrays (none for a length that is not
  positive); then the loop runs. The index \<open>idx\<close> is not used by the source.
\<close>

definition getitem ::
  "ImageSequence \<Rightarrow> int \<Rightarrow> (nat \<Rightarrow> nat list \<Rightarrow> error option) \<Rightarrow> (nat \<Rightarrow> ('img::zero) env)
     \<Rightarrow> error + (ImageSequence \<times> 'img list \<times> array2 list)" where
  "getitem self idx allocate env =
     (if batch_size self < 0 \<or> captcha_height self < 0 \<or> captcha_width self < 0
      then Inl ValueError
      else
        (case allocate 0 [nat (batch_size self), nat (captcha_height self),
                          nat (captcha_width self), 3] of
           Some e \<Rightarrow> Inl e
         | None \<Rightarrow>
             (case label_arrays allocate (nat (captcha_length self)) 1 (batch_size self)
                     (length (captcha_symbols self)) of
                Inl e \<Rightarrow> Inl e
              | Inr y \<Rightarrow>
                  batch_loop env [0..<nat (batch_size self)]
                    (self, replicate (nat (batch_size self)) 0, y))))"

text \<open>
  Lines 66 to 77 alone, once for each element of a list of inputs: the feeder
  afterwards, and the keys and file names drawn, in order.
\<close>

fun draws ::
  "'img env list \<Rightarrow> ImageSequence \<Rightarrow> error + (ImageSequence \<times> (string \<times> string) list)" where
  "draws [] self = Inr (self, [])"
| "draws (e # es) self =
     (case draw e self of
        Inl err \<Rightarrow> Inl err
      | Inr (self1, random_image_label, random_image_file) \<Rightarrow>
          (case draws es self1 of
             Inl err \<Rightarrow> Inl err
           | Inr (self2, ds) \<Rightarrow> Inr (self2, (random_image_label, random_image_file) # ds)))"

text \<open>
  The test of line 66, \<^verbatim>\<open>len(self.files) == 0\<close>, at each draw of such a
  sequence: whether the draw finds the pool empty and refills it.
\<close>

fun refills :: "'img env list \<Rightarrow> ImageSequence \<Rightarrow> bool list" where
  "refills [] self = []"
| "refills (e # es) self =
     (length (files self) = 0) #
     (case draw e self of
        Inl err \<Rightarrow> []
      | Inr (self1, random_image_label, random_image_file) \<Rightarrow> refills es self1)"

subsection \<open>Notions used in the proofs\<close>

text \<open>A pool has one entry for each key, and each key is the prefix of its file name.\<close>

definition pool_ok :: "(string \<times> string) list \<Rightarrow> bool" where
  "pool_ok d = (distinct (map fst d) \<and> (\<forall>(k, f) \<in> set d. k = split_first CHR ''.'' f))"

text \<open>The files used since the last refill have different prefixes, none of them a key
  of the pool.\<close>

definition feeder_inv :: "ImageSequence \<Rightarrow> bool" where
  "feeder_inv self =
     (pool_ok (files self) \<and>
      distinct (map (split_first CHR ''.'') (used_files self)) \<and>
      split_first CHR ''.'' ` set (used_files self) \<inter> fst ` set (files self) = {})"

text \<open>Every array has \<open>B\<close> rows of \<open>n\<close> entries.\<close>

definition well_shaped :: "nat \<Rightarrow> nat \<Rightarrow> array2 list \<Rightarrow> bool" where
  "well_shaped B n y = (\<forall>a \<in> set y. length a = B \<and> (\<forall>r \<in> set a. length r = n))"

text \<open>What the encoding of a label leaves in row \<open>i\<close> of the arrays \<open>y'\<close>, given the
  arrays \<open>y\<close> before it.\<close>

definition row_spec :: "string \<Rightarrow> array2 list \<Rightarrow> array2 list \<Rightarrow> nat \<Rightarrow> string \<Rightarrow> bool" where
  "row_spec symbols y y' i lab =
     (length lab \<le> length y \<and>
      (\<forall>q < length lab. \<exists>c. np_index (length symbols) (str_find symbols (lab ! q)) = Inr c \<and>
            y' ! q ! i = (replicate (length symbols) 0)[c := 1]) \<and>
      (\<forall>q. length lab \<le> q \<longrightarrow> y' ! q ! i = y ! q ! i))"

subsection \<open>A small data set\<close>

text \<open>
  Two files, labelled \<open>ab\<close> and \<open>ba\<close>; an outside that lists them, answers
  \<open>i\<close> to the random choice of iteration \<open>i\<close>, loads every image and allocates every
  array; the feeder that the constructor builds from them, and the same feeder after
  one full batch.
\<close>

definition example_listing :: "string list" where
  "example_listing = [''ab_0.png'', ''ba_1.png'']"

definition example_env :: "nat \<Rightarrow> nat env" where
  "example_env i = \<lparr>listdir = Some example_listing, choice = i, load_image = (\<lambda>f. Some 7)\<rparr>"

definition example_allocate :: "nat \<Rightarrow> nat list \<Rightarrow> error option" where
  "example_allocate k shape = None"

definition example_feeder :: "int \<Rightarrow> int \<Rightarrow> string \<Rightarrow> ImageSequence" where
  "example_feeder batch n symbols =
     \<lparr>directory_name = ''train'', batch_size = batch, captcha_length = n,
      captcha_symbols = symbols, captcha_width = 4, captcha_height = 2,
      files = [(''ab_0'', ''ab_0.png''), (''ba_1'', ''ba_1.png'')], used_files = [], count = 2\<rparr>"

definition example_after :: "int \<Rightarrow> int \<Rightarrow> string \<Rightarrow> ImageSequence" where
  "example_after batch n symbols =
     (example_feeder batch n symbols)
       \<lparr>files := [(''ba_1'', ''ba_1.png'')], used_files := [''ab_0.png'']\<rparr>"

definition example_args :: args where
  "example_args =
     \<lparr>args_width = Some 128, args_height = Some 64, args_length = Some 2,
      args_batch_size = Some 3, args_train_dataset = Some ''train'',
      args_validate_dataset = Some ''validate'', args_output_model_name = Some ''model'',
      args_input_model = None, args_epochs = Some 5, args_symbols = Some ''symbols.txt''\<rparr>"

text \<open>An outside in which the training loop is interrupted and nothing else fails.\<close>

definition example_world :: world where
  "example_world =
     \<lparr>symbols_line = (\<lambda>f. ''ab''),
      raises = (\<lambda>c. if c = Fit 5 then Some KeyboardInterrupt else None)\<rparr>"





section \<open>Lemmas\<close>

lemma set_update_subset: "set (AList.update k v al) \<subseteq> insert (k, v) (set al)"
  by (induction al) auto

lemma pool_ok_update:
  "pool_ok d \<Longrightarrow> pool_ok (AList.update (split_first CHR ''.'' f) f d)"
  unfolding pool_ok_def using set_update_subset[of "split_first CHR ''.'' f" f d]
  by (auto simp: distinct_update)

lemma pool_ok_fold:
  "pool_ok d \<Longrightarrow>
   pool_ok (fold (\<lambda>(k, v) d. AList.update k v d) (zip (map (split_first CHR ''.'') fl) fl) d)"
  by (induction fl arbitrary: d) (auto simp: pool_ok_update)

lemma pool_ok_make_files: "pool_ok (make_files fl)"
  unfolding make_files_def by (rule pool_ok_fold) (simp add: pool_ok_def)

lemma keys_fold:
  "fst ` set (fold (\<lambda>(k, v) d. AList.update k v d) (zip (map g fl) fl) d)
     = g ` set fl \<union> fst ` set d"
  by (induction fl arbitrary: d) (auto simp: dom_update)

lemma keys_make_files: "fst ` set (make_files fl) = split_first CHR ''.'' ` set fl"
  unfolding make_files_def by (simp add: keys_fold)

lemma vals_fold:
  "snd ` set (fold (\<lambda>(k, v) d. AList.update k v d) (zip (map g fl) fl) d)
     \<subseteq> set fl \<union> snd ` set d"
proof (induction fl arbitrary: d)
  case Nil then show ?case by simp
next
  case (Cons f fl)
  have "snd ` set (AList.update (g f) f d) \<subseteq> insert f (snd ` set d)"
    using set_update_subset[of "g f" f d] by force
  with Cons[of "AList.update (g f) f d"] show ?case by auto
qed

lemma vals_make_files: "snd ` set (make_files fl) \<subseteq> set fl"
  unfolding make_files_def using vals_fold[of _ fl "[]"] by simp

lemma length_make_files: "length (make_files fl) = card (split_first CHR ''.'' ` set fl)"
proof -
  have "distinct (map fst (make_files fl))" using pool_ok_make_files by (simp add: pool_ok_def)
  then have "card (set (map fst (make_files fl))) = length (map fst (make_files fl))"
    by (rule distinct_card)
  then show ?thesis by (simp add: keys_make_files)
qed

lemma refill_cases:
  assumes "refill e self = Inr self1"
  shows "(files self \<noteq> [] \<and> self1 = self) \<or>
         (files self = [] \<and> (\<exists>fl. listdir e = Some fl \<and>
             self1 = self\<lparr>used_files := [], files := make_files fl\<rparr>))"
  using assms by (auto simp: refill_def split: if_splits option.splits)

lemma draw_cases:
  assumes "draw e self = Inr (self', k, f)"
  shows "\<exists>self1. refill e self = Inr self1 \<and> files self1 \<noteq> [] \<and>
           k = map fst (files self1) ! (choice e mod length (files self1)) \<and>
           map_of (files self1) k = Some f \<and>
           self' = self1\<lparr>files := AList.delete k (files self1),
                         used_files := used_files self1 @ [f]\<rparr>"
  using assms by (auto simp: draw_def Let_def split: sum.splits if_splits option.splits)

lemma set_delete_subset: "set (AList.delete k d) \<subseteq> set d"
  by (auto simp: AList.delete_eq)

lemma pool_ok_delete: "pool_ok d \<Longrightarrow> pool_ok (AList.delete k d)"
  unfolding pool_ok_def using set_delete_subset[of k d]
  by (simp add: distinct_delete) blast

lemma refill_inv:
  assumes "feeder_inv self" "refill e self = Inr self1" shows "feeder_inv self1"
proof -
  from refill_cases[OF assms(2)] show ?thesis
  proof (elim disjE conjE exE)
    assume "self1 = self" with assms(1) show ?thesis by simp
  next
    fix fl assume "self1 = self\<lparr>used_files := [], files := make_files fl\<rparr>"
    then show ?thesis by (simp add: feeder_inv_def pool_ok_make_files)
  qed
qed

lemma init_inv: "init l d b n s w h = Inr self \<Longrightarrow> feeder_inv self"
  by (cases l) (auto simp: init_def feeder_inv_def pool_ok_make_files)

lemma feeder_inv_distinct: "feeder_inv self \<Longrightarrow> distinct (used_files self)"
  by (simp add: feeder_inv_def distinct_map)

lemma feeder_inv_disjoint:
  assumes "feeder_inv self"
  shows "set (used_files self) \<inter> snd ` set (files self) = {}"
proof -
  { fix f assume u: "f \<in> set (used_files self)" and p: "f \<in> snd ` set (files self)"
    from p obtain k where kf: "(k, f) \<in> set (files self)" by auto
    with assms have "k = split_first CHR ''.'' f" by (auto simp: feeder_inv_def pool_ok_def)
    with kf have "split_first CHR ''.'' f \<in> fst ` set (files self)" by force
    moreover from u have "split_first CHR ''.'' f \<in> split_first CHR ''.'' ` set (used_files self)" by simp
    ultimately have False using assms by (auto simp: feeder_inv_def) }
  then show ?thesis by blast
qed

lemma draw_inv:
  assumes "feeder_inv self" "draw e self = Inr (self', k, f)"
  shows "feeder_inv self'"
proof -
  from draw_cases[OF assms(2)] obtain self1 where r: "refill e self = Inr self1"
    and m: "map_of (files self1) k = Some f"
    and s: "self' = self1\<lparr>files := AList.delete k (files self1),
                         used_files := used_files self1 @ [f]\<rparr>" by blast
  have i1: "feeder_inv self1" using refill_inv[OF assms(1) r] .
  from m have kf: "(k, f) \<in> set (files self1)" by (rule map_of_SomeD)
  with i1 have kst: "k = split_first CHR ''.'' f" by (auto simp: feeder_inv_def pool_ok_def)
  have kin: "k \<in> fst ` set (files self1)" using kf by force
  have a: "pool_ok (AList.delete k (files self1))" using i1 by (simp add: feeder_inv_def pool_ok_delete)
  have knu: "k \<notin> split_first CHR ''.'' ` set (used_files self1)"
    using i1 kin unfolding feeder_inv_def by blast
  have b: "distinct (map (split_first CHR ''.'') (used_files self1 @ [f]))"
    using i1 knu kst by (simp add: feeder_inv_def)
  have c: "split_first CHR ''.'' ` set (used_files self1 @ [f]) \<inter> fst ` set (AList.delete k (files self1)) = {}"
  proof -
    have "fst ` set (AList.delete k (files self1)) \<subseteq> fst ` set (files self1) - {k}"
      using delete_notin_dom[of k "files self1"] dom_delete_subset[of k "files self1"] by blast
    moreover have "split_first CHR ''.'' ` set (used_files self1 @ [f]) = insert k (split_first CHR ''.'' ` set (used_files self1))"
      using kst by simp
    moreover have "split_first CHR ''.'' ` set (used_files self1) \<inter> fst ` set (files self1) = {}"
      using i1 by (simp add: feeder_inv_def)
    ultimately show ?thesis by blast
  qed
  show ?thesis using a b c by (simp add: s feeder_inv_def)
qed

lemma draws_Cons_cases:
  assumes "draws (e # es) self = Inr (self', ds)"
  shows "\<exists>s1 k f ds'. draw e self = Inr (s1, k, f) \<and> draws es s1 = Inr (self', ds') \<and> ds = (k, f) # ds'"
  using assms by (auto split: sum.splits prod.splits)

lemma draws_inv:
  "feeder_inv self \<Longrightarrow> draws es self = Inr (self', ds) \<Longrightarrow> feeder_inv self'"
proof (induction es arbitrary: self ds)
  case Nil then show ?case by simp
next
  case (Cons e es)
  from draws_Cons_cases[OF Cons.prems(2)] obtain s1 k f ds' where
    d: "draw e self = Inr (s1, k, f)" and r: "draws es s1 = Inr (self', ds')" by blast
  from Cons.IH[OF draw_inv[OF Cons.prems(1) d] r] show ?case .
qed

lemma draw_used:
  assumes "draw e self = Inr (self', k, f)"
  shows "used_files self' = used_files self @ [f] \<or> used_files self' = [f]"
proof -
  from draw_cases[OF assms] obtain self1 where r: "refill e self = Inr self1"
    and s: "self' = self1\<lparr>files := AList.delete k (files self1),
                         used_files := used_files self1 @ [f]\<rparr>" by blast
  from refill_cases[OF r] have "used_files self1 = used_files self \<or> used_files self1 = []"
    by auto
  with s show ?thesis by auto
qed

lemma draws_used:
  "draws es self = Inr (self', ds) \<Longrightarrow>
   \<exists>n. used_files self' = drop n (used_files self @ map snd ds)"
proof (induction es arbitrary: self ds)
  case Nil then show ?case by (auto intro: exI[of _ 0])
next
  case (Cons e es)
  from draws_Cons_cases[OF Cons.prems] obtain s1 k f ds' where d: "draw e self = Inr (s1, k, f)"
    and r: "draws es s1 = Inr (self', ds')" and ds: "ds = (k, f) # ds'"
    by blast
  from Cons.IH[OF r] obtain n where n: "used_files self' = drop n (used_files s1 @ map snd ds')" by blast
  from draw_used[OF d] show ?case
  proof
    assume "used_files s1 = used_files self @ [f]"
    with n ds have "used_files self' = drop n (used_files self @ map snd ds)" by simp
    then show ?thesis ..
  next
    assume "used_files s1 = [f]"
    with n ds have "used_files self' = drop (length (used_files self) + n) (used_files self @ map snd ds)" by simp
    then show ?thesis ..
  qed
qed

lemma np_index_less: "np_index n k = Inr c \<Longrightarrow> c < n"
  by (auto simp: np_index_def split: if_splits)

lemma np_index_not_found: "0 < n \<Longrightarrow> np_index n (- 1) = Inr (n - 1)"
  by (auto simp: np_index_def)

lemma np_index_empty: "np_index 0 k = Inl IndexError"
  by (auto simp: np_index_def)

lemma str_find_range: "- 1 \<le> str_find s ch \<and> str_find s ch < int (length s)"
  by (induction s) (auto simp: Let_def)

lemma str_find_notin: "ch \<notin> set s \<Longrightarrow> str_find s ch = - 1"
  by (induction s) (auto simp: Let_def)

lemma str_find_in: "ch \<in> set s \<Longrightarrow> 0 \<le> str_find s ch"
  by (induction s) (auto simp: Let_def)

lemma str_find_nth: "ch \<in> set s \<Longrightarrow> s ! nat (str_find s ch) = ch"
proof (induction s)
  case Nil then show ?case by simp
next
  case (Cons c cs)
  show ?case
  proof (cases "c = ch")
    case True then show ?thesis by simp
  next
    case False
    with Cons.prems have in': "ch \<in> set cs" by simp
    from str_find_in[OF in'] have "nat (str_find cs ch + 1) = Suc (nat (str_find cs ch))" by simp
    with False in' Cons.IH str_find_in[OF in'] show ?thesis by (simp add: Let_def)
  qed
qed

lemma well_shaped_nth1:
  "well_shaped B n y \<Longrightarrow> j < length y \<Longrightarrow> length (y ! j) = B"
  using nth_mem[of j y] by (auto simp: well_shaped_def)

lemma well_shaped_nth2:
  assumes "well_shaped B n y" "j < length y" "i < B" shows "length (y ! j ! i) = n"
proof -
  have a: "y ! j \<in> set y" using assms(2) by simp
  with assms(1) have l: "length (y ! j) = B" by (simp add: well_shaped_def)
  with assms(3) have "y ! j ! i \<in> set (y ! j)" by simp
  with assms(1) a show ?thesis unfolding well_shaped_def by blast
qed

lemma well_shaped_update:
  assumes "well_shaped B n y" "length a = B" "\<forall>r \<in> set a. length r = n"
  shows "well_shaped B n (y[j := a])"
  using assms set_update_subset_insert[of y j a] unfolding well_shaped_def by blast

lemma encode_step:
  assumes ws: "well_shaped B n y" and i: "i < B" and j: "j < length y"
    and c: "clear_row (y ! j) i = Inr a" and s: "set_cell a i k v = Inr a'"
  shows "\<exists>c. np_index n k = Inr c \<and> c < n \<and> a' = (y ! j)[i := (replicate n 0)[c := v]]"
proof -
  have lj: "length (y ! j) = B" and lr: "length (y ! j ! i) = n"
    using well_shaped_nth1[OF ws j] well_shaped_nth2[OF ws j i] by auto
  from c i lj have a: "a = (y ! j)[i := replicate n 0]"
    by (auto simp: clear_row_def lr map_replicate_const split: if_splits)
  then have ai: "a ! i = replicate n 0" and la: "length a = B" using i lj by auto
  from s obtain c where np: "np_index n k = Inr c" and a': "a' = a[i := (a ! i)[c := v]]"
    using i la ai by (auto simp: set_cell_def split: if_splits sum.splits)
  from a' a ai have "a' = (y ! j)[i := (replicate n 0)[c := v]]" by simp
  with np np_index_less[OF np] show ?thesis by blast
qed

lemma encode_Cons_cases:
  assumes "encode symbols i (ch # rest) j y = Inr y'"
  shows "j < length y \<and> (\<exists>a a'. clear_row (y ! j) i = Inr a \<and>
           set_cell a i (str_find symbols ch) 1 = Inr a' \<and>
           encode symbols i rest (Suc j) (y[j := a']) = Inr y')"
  using assms by (auto split: if_splits sum.splits)

lemma encode_spec:
  assumes "well_shaped B n y" "i < B" "encode symbols i lab j y = Inr y'" "j \<le> length y"
  shows "length y' = length y \<and> well_shaped B n y' \<and> j + length lab \<le> length y \<and>
         (\<forall>q < length lab. \<exists>c. np_index n (str_find symbols (lab ! q)) = Inr c \<and>
              y' ! (j + q) ! i = (replicate n 0)[c := 1]) \<and>
         (\<forall>j' i'. j' < j \<or> j + length lab \<le> j' \<or> i' \<noteq> i \<longrightarrow> y' ! j' ! i' = y ! j' ! i')"
  using assms
proof (induction lab arbitrary: j y)
  case Nil
  then show ?case by simp
next
  case (Cons ch rest)
  from encode_Cons_cases[OF Cons.prems(3)] obtain a a' where j: "j < length y"
    and c: "clear_row (y ! j) i = Inr a"
    and s: "set_cell a i (str_find symbols ch) 1 = Inr a'"
    and r: "encode symbols i rest (Suc j) (y[j := a']) = Inr y'" by blast
  from encode_step[OF Cons.prems(1,2) j c s] obtain c0 where
    np: "np_index n (str_find symbols ch) = Inr c0" and c0: "c0 < n"
    and a': "a' = (y ! j)[i := (replicate n 0)[c0 := 1]]" by blast
  have lj: "length (y ! j) = B" using well_shaped_nth1[OF Cons.prems(1) j] .
  have "\<forall>r \<in> set a'. length r = n"
  proof
    fix r assume "r \<in> set a'"
    with a' set_update_subset_insert[of "y ! j" i "(replicate n 0)[c0 := 1]"]
    have "r = (replicate n 0)[c0 := 1] \<or> r \<in> set (y ! j)" by auto
    then show "length r = n" using Cons.prems(1) j by (auto simp: well_shaped_def)
  qed
  then have ws1: "well_shaped B n (y[j := a'])"
    using well_shaped_update[OF Cons.prems(1)] a' lj by simp
  have "Suc j \<le> length (y[j := a'])" using j by simp
  note IH = Cons.IH[OF ws1 Cons.prems(2) r this]
  have l: "length y' = length y" using IH by simp
  have ws': "well_shaped B n y'" using IH by simp
  have b: "j + length (ch # rest) \<le> length y" using IH by simp
  have rows: "\<forall>q < length (ch # rest). \<exists>c. np_index n (str_find symbols ((ch # rest) ! q)) = Inr c \<and>
              y' ! (j + q) ! i = (replicate n 0)[c := 1]"
  proof (intro allI impI)
    fix q assume q: "q < length (ch # rest)"
    show "\<exists>c. np_index n (str_find symbols ((ch # rest) ! q)) = Inr c \<and>
              y' ! (j + q) ! i = (replicate n 0)[c := 1]"
    proof (cases q)
      case 0
      from IH have "y' ! j ! i = (y[j := a']) ! j ! i" by simp
      also have "\<dots> = (replicate n 0)[c0 := 1]" using j a' lj Cons.prems(2) by simp
      finally show ?thesis using np 0 by simp
    next
      case (Suc q')
      with q have "q' < length rest" by simp
      with IH obtain c where "np_index n (str_find symbols (rest ! q')) = Inr c"
        "y' ! (Suc j + q') ! i = (replicate n 0)[c := 1]" by blast
      with Suc show ?thesis by simp
    qed
  qed
  have frame: "\<forall>j' i'. j' < j \<or> j + length (ch # rest) \<le> j' \<or> i' \<noteq> i \<longrightarrow> y' ! j' ! i' = y ! j' ! i'"
  proof (intro allI impI)
    fix j' i' assume h: "j' < j \<or> j + length (ch # rest) \<le> j' \<or> i' \<noteq> i"
    then have "j' < Suc j \<or> Suc j + length rest \<le> j' \<or> i' \<noteq> i" by auto
    with IH have e: "y' ! j' ! i' = (y[j := a']) ! j' ! i'" by blast
    show "y' ! j' ! i' = y ! j' ! i'"
    proof (cases "j' = j")
      case True
      with h have "i' \<noteq> i" by auto
      with e True j a' show ?thesis by simp
    next
      case False
      with e show ?thesis by simp
    qed
  qed
  from l ws' b rows frame show ?case by blast
qed

lemma encode_too_long:
  "j \<le> length y \<Longrightarrow> length y < j + length lab \<Longrightarrow> \<exists>e. encode symbols i lab j y = Inl e"
proof (induction lab arbitrary: j y)
  case Nil then show ?case by simp
next
  case (Cons ch rest)
  show ?case
  proof (cases "encode symbols i (ch # rest) j y")
    case (Inl e) then show ?thesis by blast
  next
    case (Inr y')
    from encode_Cons_cases[OF Inr] obtain a' where j: "j < length y"
      and r: "encode symbols i rest (Suc j) (y[j := a']) = Inr y'" by blast
    from Cons.prems have "length (y[j := a']) < Suc j + length rest" by simp
    moreover from j have "Suc j \<le> length (y[j := a'])" by simp
    ultimately show ?thesis using Cons.IH[of "Suc j" "y[j := a']"] r by auto
  qed
qed


lemma draw_config:
  assumes "draw e self = Inr (self', k, f)"
  shows "captcha_symbols self' = captcha_symbols self \<and> batch_size self' = batch_size self \<and>
         captcha_length self' = captcha_length self \<and> count self' = count self"
proof -
  from draw_cases[OF assms] obtain self1 where r: "refill e self = Inr self1"
    and s: "self' = self1\<lparr>files := AList.delete k (files self1),
                         used_files := used_files self1 @ [f]\<rparr>" by blast
  from refill_cases[OF r] have "captcha_symbols self1 = captcha_symbols self \<and>
      batch_size self1 = batch_size self \<and> captcha_length self1 = captcha_length self \<and>
      count self1 = count self" by auto
  with s show ?thesis by simp
qed

lemma sample_cases:
  assumes "sample e i (self, X, y) = Inr (self', X', y')"
  shows "\<exists>k f img. draw e self = Inr (self', k, f) \<and> load_image e f = Some img \<and> i < length X \<and>
           encode (captcha_symbols self') i (split_first CHR ''_'' k) 0 y = Inr y' \<and>
           X' = X[i := img]"
  using assms by (auto simp: sample_def split: sum.splits option.splits if_splits prod.splits)

lemma batch_loop_Cons_cases:
  assumes "batch_loop env (i # is) s = Inr s'"
  shows "\<exists>s1. sample (env i) i s = Inr s1 \<and> batch_loop env is s1 = Inr s'"
  using assms by (auto split: sum.splits)

lemma batch_loop_spec:
  assumes "well_shaped B (length (captcha_symbols self)) y" "set is \<subseteq> {..<B}" "distinct is"
    "length X = B" "batch_loop env is (self, X, y) = Inr (self', X', y')"
  shows "\<exists>ds. draws (map env is) self = Inr (self', ds) \<and> length ds = length is \<and>
           length y' = length y \<and> well_shaped B (length (captcha_symbols self)) y' \<and>
           length X' = B \<and>
           (\<forall>p < length is. row_spec (captcha_symbols self) y y' (is ! p)
                                (split_first CHR ''_'' (fst (ds ! p)))) \<and>
           (\<forall>q i. i \<notin> set is \<longrightarrow> y' ! q ! i = y ! q ! i)"
  using assms
proof (induction "is" arbitrary: self X y)
  case Nil
  then show ?case by simp
next
  case (Cons i "is")
  let ?n = "length (captcha_symbols self)"
  from batch_loop_Cons_cases[OF Cons.prems(5)] obtain s1 where
    sm: "sample (env i) i (self, X, y) = Inr s1" and bl: "batch_loop env is s1 = Inr (self', X', y')"
    by blast
  obtain self1 X1 y1 where s1: "s1 = (self1, X1, y1)" by (cases s1) auto
  from sample_cases[OF sm[unfolded s1]] obtain k f img where
    d: "draw (env i) self = Inr (self1, k, f)" and iX: "i < length X"
    and en: "encode (captcha_symbols self1) i (split_first CHR ''_'' k) 0 y = Inr y1"
    and X1: "X1 = X[i := img]" by blast
  have sy: "captcha_symbols self1 = captcha_symbols self" using draw_config[OF d] by simp
  have iB: "i < B" using Cons.prems(2) by simp
  note E = encode_spec[OF Cons.prems(1) iB en[unfolded sy]]
  have E': "length y1 = length y \<and> well_shaped B ?n y1 \<and>
         0 + length (split_first CHR ''_'' k) \<le> length y \<and>
         (\<forall>q < length (split_first CHR ''_'' k). \<exists>c. np_index ?n (str_find (captcha_symbols self) (split_first CHR ''_'' k ! q)) = Inr c \<and>
              y1 ! (0 + q) ! i = (replicate ?n 0)[c := 1]) \<and>
         (\<forall>j' i'. j' < 0 \<or> 0 + length (split_first CHR ''_'' k) \<le> j' \<or> i' \<noteq> i \<longrightarrow> y1 ! j' ! i' = y ! j' ! i')"
    by (rule E) simp
  have ws1: "well_shaped B (length (captcha_symbols self1)) y1" using E' sy by simp
  have p2: "set is \<subseteq> {..<B}" and p3: "distinct is" and ini: "i \<notin> set is"
    using Cons.prems(2,3) by auto
  have lX1: "length X1 = B" using X1 Cons.prems(4) by simp
  from Cons.IH[OF ws1 p2 p3 lX1 bl[unfolded s1]] obtain ds where
    dr: "draws (map env is) self1 = Inr (self', ds)" and lds: "length ds = length is"
    and ly: "length y' = length y1" and ws': "well_shaped B (length (captcha_symbols self1)) y'"
    and lX': "length X' = B"
    and rows: "\<forall>p < length is. row_spec (captcha_symbols self1) y1 y' (is ! p)
                                (split_first CHR ''_'' (fst (ds ! p)))"
    and frame: "\<forall>q i. i \<notin> set is \<longrightarrow> y' ! q ! i = y1 ! q ! i" by blast
  have dr': "draws (map env (i # is)) self = Inr (self', (k, f) # ds)"
    using d dr by simp
  have r0: "row_spec (captcha_symbols self) y y' i (split_first CHR ''_'' k)"
    unfolding row_spec_def using E' frame ini by simp
  have rs: "\<forall>p < length is. row_spec (captcha_symbols self) y y' (is ! p)
                                (split_first CHR ''_'' (fst (ds ! p)))"
  proof (intro allI impI)
    fix p assume p: "p < length is"
    then have ne: "is ! p \<noteq> i" using ini by auto
    from rows p have "row_spec (captcha_symbols self) y1 y' (is ! p)
                                (split_first CHR ''_'' (fst (ds ! p)))" by (simp add: sy)
    then show "row_spec (captcha_symbols self) y y' (is ! p)
                                (split_first CHR ''_'' (fst (ds ! p)))"
      unfolding row_spec_def using E' ne by simp
  qed
  have rows': "\<forall>p < length (i # is). row_spec (captcha_symbols self) y y' ((i # is) ! p)
                                (split_first CHR ''_'' (fst (((k, f) # ds) ! p)))"
  proof (intro allI impI)
    fix p assume "p < length (i # is)"
    then show "row_spec (captcha_symbols self) y y' ((i # is) ! p)
                                (split_first CHR ''_'' (fst (((k, f) # ds) ! p)))"
      using r0 rs by (cases p) auto
  qed
  have frame': "\<forall>q i'. i' \<notin> set (i # is) \<longrightarrow> y' ! q ! i' = y ! q ! i'"
    using frame E' by simp
  from dr' lds ly E' ws' sy lX' rows' frame' show ?case
    by (intro exI[of _ "(k, f) # ds"]) simp
qed

lemma batch_loop_append:
  "batch_loop env (is1 @ is2) s =
     (case batch_loop env is1 s of Inl e \<Rightarrow> Inl e | Inr s1 \<Rightarrow> batch_loop env is2 s1)"
  by (induction is1 arbitrary: s) (auto split: sum.splits)

lemma label_arrays_cases:
  "label_arrays allocate n k rows columns = Inr y \<Longrightarrow> 0 \<le> rows \<Longrightarrow>
   y = replicate n (replicate (nat rows) (replicate columns 0))"
proof (induction n arbitrary: k y)
  case 0 then show ?case by simp
next
  case (Suc n)
  from Suc.prems(1) obtain a as where a: "zeros (allocate k) rows columns = Inr a"
    and r: "label_arrays allocate n (Suc k) rows columns = Inr as" and y: "y = a # as"
    by (auto split: sum.splits)
  from a have "a = replicate (nat rows) (replicate columns 0)"
    by (auto simp: zeros_def split: if_splits option.splits)
  with Suc.IH[OF r Suc.prems(2)] y show ?case by simp
qed


lemma well_shaped_replicate: "well_shaped B n (replicate L (replicate B (replicate n 0)))"
  by (auto simp: well_shaped_def)

lemma getitem_cases:
  assumes "getitem self idx allocate env = Inr r"
  shows "0 \<le> batch_size self \<and> 0 \<le> captcha_height self \<and> 0 \<le> captcha_width self \<and>
         batch_loop env [0..<nat (batch_size self)]
           (self, replicate (nat (batch_size self)) 0,
            replicate (nat (captcha_length self))
              (replicate (nat (batch_size self)) (replicate (length (captcha_symbols self)) 0))) = Inr r"
proof -
  from assms have nn: "0 \<le> batch_size self \<and> 0 \<le> captcha_height self \<and> 0 \<le> captcha_width self"
    by (auto simp: getitem_def split: if_splits)
  with assms obtain y where l: "label_arrays allocate (nat (captcha_length self)) 1 (batch_size self)
                     (length (captcha_symbols self)) = Inr y"
    and b: "batch_loop env [0..<nat (batch_size self)]
              (self, replicate (nat (batch_size self)) 0, y) = Inr r"
    by (auto simp: getitem_def split: if_splits option.splits sum.splits)
  from label_arrays_cases[OF l] nn b show ?thesis by simp
qed


lemma draws_append:
  "draws (es1 @ es2) self =
     (case draws es1 self of Inl e \<Rightarrow> Inl e
      | Inr (s1, ds1) \<Rightarrow> (case draws es2 s1 of Inl e \<Rightarrow> Inl e
                           | Inr (s2, ds2) \<Rightarrow> Inr (s2, ds1 @ ds2)))"
  by (induction es1 arbitrary: self) (auto split: sum.splits prod.splits)

lemma batch_loop_upt:
  assumes ws: "well_shaped B (length (captcha_symbols self)) y" and m: "m \<le> B"
    and lX: "length X = B" and bl: "batch_loop env [0..<m] (self, X, y) = Inr (self', X', y')"
  shows "\<exists>ds. draws (map env [0..<m]) self = Inr (self', ds) \<and> length ds = m \<and>
           length y' = length y \<and> well_shaped B (length (captcha_symbols self)) y' \<and>
           length X' = B \<and>
           (\<forall>p < m. row_spec (captcha_symbols self) y y' p
                                (split_first CHR ''_'' (fst (ds ! p)))) \<and>
           (\<forall>q i. m \<le> i \<longrightarrow> y' ! q ! i = y ! q ! i)"
proof -
  have a: "set [0..<m] \<subseteq> {..<B}" using m by auto
  have b: "distinct [0..<m]" by simp
  from batch_loop_spec[OF ws a b lX bl] obtain ds where
    d: "draws (map env [0..<m]) self = Inr (self', ds)" and l: "length ds = length [0..<m]"
    and ly: "length y' = length y" and ws': "well_shaped B (length (captcha_symbols self)) y'"
    and lX': "length X' = B"
    and rows: "\<forall>p < length [0..<m]. row_spec (captcha_symbols self) y y' ([0..<m] ! p)
                                (split_first CHR ''_'' (fst (ds ! p)))"
    and frame: "\<forall>q i. i \<notin> set [0..<m] \<longrightarrow> y' ! q ! i = y ! q ! i" by blast
  have rows': "\<forall>p < m. row_spec (captcha_symbols self) y y' p
                                (split_first CHR ''_'' (fst (ds ! p)))"
  proof (intro allI impI)
    fix p assume p: "p < m"
    with rows have "row_spec (captcha_symbols self) y y' ([0..<m] ! p)
                                (split_first CHR ''_'' (fst (ds ! p)))" by simp
    with p show "row_spec (captcha_symbols self) y y' p
                                (split_first CHR ''_'' (fst (ds ! p)))" by simp
  qed
  have frame': "\<forall>q i. m \<le> i \<longrightarrow> y' ! q ! i = y ! q ! i" using frame by simp
  from d l ly ws' lX' rows' frame' show ?thesis by (intro exI[of _ ds]) simp
qed

lemma getitem_prefix:
  assumes g: "getitem self idx allocate env = Inr (self', X, y)" and m: "m \<le> nat (batch_size self)"
    and d: "draws (map env [0..<m]) self = Inr (self2, ds)"
    and p: "p < m"
  shows "length (split_first CHR ''_'' (fst (ds ! p))) \<le> nat (captcha_length self) \<and>
         (\<forall>q < length (split_first CHR ''_'' (fst (ds ! p))).
            \<exists>c. np_index (length (captcha_symbols self))
                   (str_find (captcha_symbols self) (split_first CHR ''_'' (fst (ds ! p)) ! q)) = Inr c \<and>
                y ! q ! p = (replicate (length (captcha_symbols self)) 0)[c := 1])"
proof -
  let ?B = "nat (batch_size self)" and ?n = "length (captcha_symbols self)"
  let ?y0 = "replicate (nat (captcha_length self)) (replicate ?B (replicate ?n (0::8 word)))"
  let ?X0 = "replicate ?B (0::'a)"
  from getitem_cases[OF g] have bl: "batch_loop env [0..<?B] (self, ?X0, ?y0) = Inr (self', X, y)"
    by simp
  have ws: "well_shaped ?B ?n ?y0" by (rule well_shaped_replicate)
  have lX0: "length ?X0 = ?B" by simp
  from batch_loop_upt[OF ws order_refl lX0 bl] obtain dsA where
    dA: "draws (map env [0..<?B]) self = Inr (self', dsA)" and lA: "length dsA = ?B"
    and rows: "\<forall>p < ?B. row_spec (captcha_symbols self) ?y0 y p
                                (split_first CHR ''_'' (fst (dsA ! p)))"
    by blast
  have sp: "[0..<?B] = [0..<m] @ [m..<?B]" using m using upt_add_eq_append[of 0 m "nat (batch_size self) - m"] by simp
  from dA[unfolded sp] d obtain ds2 where dsA: "dsA = ds @ ds2"
    by (auto simp: draws_append split: sum.splits prod.splits)
  have lds: "length ds = m"
  proof -
    have "batch_loop env [0..<m] (self, ?X0, ?y0) \<noteq> Inl e" for e
      using bl unfolding sp by (auto simp: batch_loop_append)
    then obtain s1 X1 y1 where b1: "batch_loop env [0..<m] (self, ?X0, ?y0) = Inr (s1, X1, y1)"
      by (cases "batch_loop env [0..<m] (self, ?X0, ?y0)") auto
    from batch_loop_upt[OF ws m lX0 b1] d show ?thesis by auto
  qed
  from dsA lds have e: "dsA ! p = ds ! p" using p by (simp add: nth_append)
  have pB: "p < ?B" using p m by simp
  with rows have "row_spec (captcha_symbols self) ?y0 y p (split_first CHR ''_'' (fst (dsA ! p)))"
    by simp
  then show ?thesis unfolding row_spec_def e by simp
qed

lemma getitem_shape:
  assumes g: "getitem self idx allocate env = Inr (self', X, y)"
  shows "length y = nat (captcha_length self) \<and> length X = nat (batch_size self) \<and>
         well_shaped (nat (batch_size self)) (length (captcha_symbols self)) y \<and>
         (\<exists>ds. draws (map env [0..<nat (batch_size self)]) self = Inr (self', ds) \<and>
               length ds = nat (batch_size self))"
proof -
  let ?B = "nat (batch_size self)" and ?n = "length (captcha_symbols self)"
  let ?y0 = "replicate (nat (captcha_length self)) (replicate ?B (replicate ?n (0::8 word)))"
  let ?X0 = "replicate ?B (0::'a)"
  from getitem_cases[OF g] have bl: "batch_loop env [0..<?B] (self, ?X0, ?y0) = Inr (self', X, y)"
    by simp
  have ws: "well_shaped ?B ?n ?y0" by (rule well_shaped_replicate)
  have lX0: "length ?X0 = ?B" by simp
  from batch_loop_upt[OF ws order_refl lX0 bl] show ?thesis by auto
qed

lemma sum_one_hot:
  assumes "c < n"
  shows "sum_list (map unat ((replicate n (0::8 word))[c := 1])) = 1"
proof -
  have "map unat ((replicate n (0::8 word))[c := 1]) = (replicate n (0::nat))[c := 1]"
    by (simp add: map_update)
  moreover have "sum_list ((replicate n (0::nat))[c := 1]) = 1"
    using assms by (simp add: sum_list_update)
  ultimately show ?thesis by simp
qed



lemma delete_distinct_set:
  fixes al :: "('k \<times> 'v) list"
  assumes "distinct (map fst al)" "(k, f) \<in> set al"
  shows "set (AList.delete k al) = set al - {(k, f)}"
proof -
  have u: "v = f" if "(k, v) \<in> set al" for v
    using that assms by (auto dest: eq_key_imp_eq_value)
  show ?thesis
  proof (rule set_eqI)
    fix p :: "'k \<times> 'v"
    obtain a b where p: "p = (a, b)" by (cases p)
    show "p \<in> set (AList.delete k al) \<longleftrightarrow> p \<in> set al - {(k, f)}"
    proof (cases "a = k")
      case True
      have "p \<notin> set (AList.delete k al)" using True p delete_notin_dom[of k al] by force
      moreover have "p \<notin> set al - {(k, f)}" using True p u[of b] by auto
      ultimately show ?thesis by simp
    next
      case False
      then show ?thesis unfolding p by (simp add: AList.delete_eq)
    qed
  qed
qed

lemma delete_distinct_length:
  "distinct (map fst al) \<Longrightarrow> (k, f) \<in> set al \<Longrightarrow> length (AList.delete k al) = length al - 1"
proof (induction al)
  case Nil then show ?case by simp
next
  case (Cons p al)
  show ?case
  proof (cases "fst p = k")
    case True
    with Cons.prems have "k \<notin> fst ` set al" by auto
    then have "AList.delete k al = al" by (rule delete_id)
    with True show ?thesis by (cases p) simp
  next
    case False
    with Cons.prems have in': "(k, f) \<in> set al" by auto
    then have "al \<noteq> []" by auto
    with False Cons.IH in' Cons.prems show ?thesis by (cases p) auto
  qed
qed

lemma draw_nonempty:
  assumes "files self \<noteq> []"
  shows "\<exists>k f. (k, f) \<in> set (files self) \<and>
           draw e self = Inr (self\<lparr>files := AList.delete k (files self),
                                    used_files := used_files self @ [f]\<rparr>, k, f)"
proof -
  let ?keys = "map fst (files self)"
  let ?k = "?keys ! (choice e mod length ?keys)"
  from assms have r: "refill e self = Inr self" by (simp add: refill_def)
  from assms have "choice e mod length ?keys < length ?keys" by simp
  then have "?k \<in> set ?keys" by (rule nth_mem)
  then have "map_of (files self) ?k \<noteq> None" by (simp add: map_of_eq_None_iff)
  then obtain f where m: "map_of (files self) ?k = Some f" by auto
  then have "(?k, f) \<in> set (files self)" by (rule map_of_SomeD)
  moreover have "draw e self = Inr (self\<lparr>files := AList.delete ?k (files self),
                                    used_files := used_files self @ [f]\<rparr>, ?k, f)"
    using assms r m by (simp add: draw_def Let_def)
  ultimately show ?thesis by blast
qed

lemma make_files_nonempty: "fl \<noteq> [] \<Longrightarrow> make_files fl \<noteq> []"
proof
  assume "fl \<noteq> []" "make_files fl = []"
  then have "fst ` set (make_files fl) = {}" by simp
  with keys_make_files[of fl] \<open>fl \<noteq> []\<close> show False by simp
qed

lemma draw_empty:
  assumes "files self = []" "draw e self = Inr (self', k, f)"
  shows "\<exists>fl. listdir e = Some fl \<and> (k, f) \<in> set (make_files fl) \<and>
           files self' = AList.delete k (make_files fl) \<and> used_files self' = [f]"
proof -
  from draw_cases[OF assms(2)] obtain self1 where r: "refill e self = Inr self1"
    and m: "map_of (files self1) k = Some f"
    and s: "self' = self1\<lparr>files := AList.delete k (files self1),
                         used_files := used_files self1 @ [f]\<rparr>" by blast
  from refill_cases[OF r] assms(1) obtain fl where l: "listdir e = Some fl"
    and s1: "self1 = self\<lparr>used_files := [], files := make_files fl\<rparr>" by auto
  from m s1 have "(k, f) \<in> set (make_files fl)" by (auto dest: map_of_SomeD)
  with l s s1 show ?thesis by simp
qed

lemma draws_exhaust:
  assumes "distinct (map fst (files self))" "length es \<le> length (files self)"
  shows "\<exists>self' ds. draws es self = Inr (self', ds) \<and> length ds = length es \<and>
           distinct ds \<and> set ds \<subseteq> set (files self) \<and>
           set (files self') = set (files self) - set ds \<and>
           distinct (map fst (files self')) \<and>
           length (files self') = length (files self) - length es \<and>
           used_files self' = used_files self @ map snd ds"
  using assms
proof (induction es arbitrary: self)
  case Nil
  then show ?case by simp
next
  case (Cons e es)
  from Cons.prems(2) have ne: "files self \<noteq> []" by auto
  from draw_nonempty[OF ne, of e] obtain k f where kf: "(k, f) \<in> set (files self)"
    and d: "draw e self = Inr (self\<lparr>files := AList.delete k (files self),
                                    used_files := used_files self @ [f]\<rparr>, k, f)" by blast
  let ?s1 = "self\<lparr>files := AList.delete k (files self), used_files := used_files self @ [f]\<rparr>"
  have f1: "files ?s1 = AList.delete k (files self)" by simp
  have d1: "distinct (map fst (files ?s1))" using Cons.prems(1) by (simp add: distinct_delete)
  have l1: "length (files ?s1) = length (files self) - 1"
    using delete_distinct_length[OF Cons.prems(1) kf] by simp
  have s1: "set (files ?s1) = set (files self) - {(k, f)}"
    using delete_distinct_set[OF Cons.prems(1) kf] by simp
  have le: "length es \<le> length (files ?s1)" using l1 Cons.prems(2) by simp
  from Cons.IH[OF d1 le] obtain self' ds where
    dr: "draws es ?s1 = Inr (self', ds)" and lds: "length ds = length es"
    and dd: "distinct ds" and sub: "set ds \<subseteq> set (files ?s1)"
    and rest: "set (files self') = set (files ?s1) - set ds"
    and df: "distinct (map fst (files self'))"
    and lf: "length (files self') = length (files ?s1) - length es"
    and us: "used_files self' = used_files ?s1 @ map snd ds" by blast
  have a: "draws (e # es) self = Inr (self', (k, f) # ds)" using d dr by simp
  have b: "distinct ((k, f) # ds)" using dd sub s1 by auto
  have c: "set ((k, f) # ds) \<subseteq> set (files self)" using sub s1 kf by auto
  have r: "set (files self') = set (files self) - set ((k, f) # ds)" using rest s1 by auto
  have l: "length (files self') = length (files self) - length (e # es)" using lf l1 by simp
  have u: "used_files self' = used_files self @ map snd ((k, f) # ds)" using us by simp
  from a b c r l u df lds show ?case by (intro exI[of _ self'] exI[of _ "(k, f) # ds"]) simp
qed

lemma card_image_collision:
  assumes "i < j" "j < length fl" "g (fl ! i) = g (fl ! j)"
  shows "card (g ` set fl) < length fl"
proof -
  let ?fl' = "take j fl @ drop (Suc j) fl"
  have "fl = take j fl @ fl ! j # drop (Suc j) fl" using assms(2) by (rule id_take_nth_drop)
  then have "set fl = set (take j fl @ fl ! j # drop (Suc j) fl)" by simp
  then have sf: "set fl = insert (fl ! j) (set ?fl')" by simp
  have "take j fl ! i = fl ! i" "i < length (take j fl)" using assms(1,2) by simp_all
  then have "fl ! i \<in> set (take j fl)" by (metis nth_mem)
  then have "fl ! i \<in> set ?fl'" by simp
  then have "g (fl ! j) \<in> g ` set ?fl'" using assms(3) by (metis imageI)
  with sf have "g ` set fl = g ` set ?fl'" by auto
  then have "card (g ` set fl) \<le> card (set ?fl')" by (simp add: card_image_le)
  also have "\<dots> \<le> length ?fl'" by (rule card_length)
  also have "\<dots> < length fl" using assms(2) by simp
  finally show ?thesis .
qed

lemma draws_count: "draws es self = Inr (self', ds) \<Longrightarrow> count self' = count self \<and> batch_size self' = batch_size self"
proof (induction es arbitrary: self ds)
  case Nil then show ?case by simp
next
  case (Cons e es)
  from draws_Cons_cases[OF Cons.prems] obtain s1 k f ds' where
    d: "draw e self = Inr (s1, k, f)" and r: "draws es s1 = Inr (self', ds')" by blast
  from Cons.IH[OF r] draw_config[OF d] show ?case by simp
qed

lemma draws_refill:
  assumes d: "draws (map env [0..<nat (batch_size self)]) self = Inr (self2, ds)"
    and dk: "distinct (map fst (files self))"
    and m: "m = length (files self)" and mB: "m < nat (batch_size self)"
  shows "set (take m ds) = set (files self) \<and>
         (\<exists>file_list s. listdir (env m) = Some file_list \<and>
            draws (map env [0..<Suc m]) self = Inr (s, take (Suc m) ds) \<and>
            ds ! m \<in> set (make_files file_list) \<and>
            files s = AList.delete (fst (ds ! m)) (make_files file_list) \<and>
            used_files s = [snd (ds ! m)])"
proof -
  let ?B = "nat (batch_size self)"
  have sp: "[0..<?B] = [0..<m] @ [m] @ [Suc m..<?B]"
    using mB upt_add_eq_append[of 0 m "?B - m"] upt_conv_Cons[of m ?B] by simp
  have le: "length (map env [0..<m]) \<le> length (files self)" using m by simp
  from draws_exhaust[OF dk le] obtain s1 ds1 where
    d1: "draws (map env [0..<m]) self = Inr (s1, ds1)" and l1: "length ds1 = m"
    and sub: "set ds1 \<subseteq> set (files self)" and dd: "distinct ds1"
    and rest: "set (files s1) = set (files self) - set ds1"
    and lf: "length (files s1) = length (files self) - length (map env [0..<m])" by auto
  from lf m have e1: "files s1 = []" by simp
  from d[unfolded sp] d1 obtain s2 k f s3 ds3 where
    d2: "draw (env m) s1 = Inr (s2, k, f)" and d3: "draws (map env [Suc m..<?B]) s2 = Inr (s3, ds3)"
    and ds: "ds = ds1 @ (k, f) # ds3"
    by (auto simp: draws_append split: sum.splits prod.splits)
  from ds l1 have tk: "take m ds = ds1" and nm: "ds ! m = (k, f)"
    and tk': "take (Suc m) ds = ds1 @ [(k, f)]" by (simp_all add: nth_append)
  from rest e1 sub have "set ds1 = set (files self)" by auto
  with tk have a: "set (take m ds) = set (files self)" by simp
  from draw_empty[OF e1 d2] obtain file_list where l: "listdir (env m) = Some file_list"
    and kf: "(k, f) \<in> set (make_files file_list)"
    and f2: "files s2 = AList.delete k (make_files file_list)" and u2: "used_files s2 = [f]"
    by blast
  have "[0..<Suc m] = [0..<m] @ [m]" by simp
  then have "draws (map env [0..<Suc m]) self = Inr (s2, ds1 @ [(k, f)])"
    using d1 d2 by (simp add: draws_append)
  with l kf f2 u2 nm tk' a show ?thesis by auto
qed

lemma batch_loop_images:
  assumes "set is \<subseteq> {..<length X}" "distinct is"
    "batch_loop env is (self, X, y) = Inr (self', X', y')"
    "draws (map env is) self = Inr (self2, ds)"
  shows "length X' = length X \<and>
         (\<forall>p < length is. load_image (env (is ! p)) (snd (ds ! p)) = Some (X' ! (is ! p))) \<and>
         (\<forall>i. i \<notin> set is \<longrightarrow> X' ! i = X ! i)"
  using assms
proof (induction "is" arbitrary: self X y ds)
  case Nil
  then show ?case by simp
next
  case (Cons i "is")
  from batch_loop_Cons_cases[OF Cons.prems(3)] obtain s1 where
    sm: "sample (env i) i (self, X, y) = Inr s1" and bl: "batch_loop env is s1 = Inr (self', X', y')"
    by blast
  obtain self1 X1 y1 where s1: "s1 = (self1, X1, y1)" by (cases s1) auto
  from sample_cases[OF sm[unfolded s1]] obtain k f img where
    d: "draw (env i) self = Inr (self1, k, f)" and im: "load_image (env i) f = Some img"
    and iX: "i < length X" and X1: "X1 = X[i := img]" by blast
  from Cons.prems(4) have "draws (env i # map env is) self = Inr (self2, ds)" by simp
  from draws_Cons_cases[OF this] d obtain ds' where
    r: "draws (map env is) self1 = Inr (self2, ds')" and ds: "ds = (k, f) # ds'" by auto
  have p1: "set is \<subseteq> {..<length X1}" and p2: "distinct is" and ini: "i \<notin> set is"
    using Cons.prems(1,2) X1 by auto
  from Cons.IH[OF p1 p2 bl[unfolded s1] r] have
    l: "length X' = length X1"
    and imgs: "\<forall>p < length is. load_image (env (is ! p)) (snd (ds' ! p)) = Some (X' ! (is ! p))"
    and frame: "\<forall>i. i \<notin> set is \<longrightarrow> X' ! i = X1 ! i" by auto
  have a: "length X' = length X" using l X1 by simp
  have x0: "X' ! i = img" using frame ini X1 iX by simp
  have b: "\<forall>p < length (i # is). load_image (env ((i # is) ! p)) (snd (ds ! p))
             = Some (X' ! ((i # is) ! p))"
  proof (intro allI impI)
    fix p assume "p < length (i # is)"
    then show "load_image (env ((i # is) ! p)) (snd (ds ! p)) = Some (X' ! ((i # is) ! p))"
      using im x0 imgs ds by (cases p) auto
  qed
  have c: "\<forall>i'. i' \<notin> set (i # is) \<longrightarrow> X' ! i' = X ! i'" using frame X1 by simp
  from a b c show ?case by blast
qed

lemma getitem_images:
  assumes g: "getitem self idx allocate env = Inr (self', X, y)"
    and d: "draws (map env [0..<nat (batch_size self)]) self = Inr (self2, ds)"
  shows "\<forall>i < nat (batch_size self). load_image (env i) (snd (ds ! i)) = Some (X ! i)"
proof -
  let ?B = "nat (batch_size self)"
  let ?X0 = "replicate ?B (0::'a)"
  from getitem_cases[OF g] obtain y0 where
    bl: "batch_loop env [0..<?B] (self, ?X0, y0) = Inr (self', X, y)" by blast
  have a: "set [0..<?B] \<subseteq> {..<length ?X0}" by auto
  have b: "distinct [0..<?B]" by simp
  from batch_loop_images[OF a b bl d] have
    "\<forall>p < length [0..<?B]. load_image (env ([0..<?B] ! p)) (snd (ds ! p)) = Some (X ! ([0..<?B] ! p))"
    by blast
  then show ?thesis by simp
qed

lemma draws_length: "draws es self = Inr (self', ds) \<Longrightarrow> length ds = length es"
proof (induction es arbitrary: self ds)
  case Nil then show ?case by simp
next
  case (Cons e es)
  from draws_Cons_cases[OF Cons.prems] obtain s1 k f ds' where
    d: "draw e self = Inr (s1, k, f)" and r: "draws es s1 = Inr (self', ds')"
    and ds: "ds = (k, f) # ds'" by blast
  from Cons.IH[OF r] ds show ?case by simp
qed

lemma refills_length: "draws es self = Inr (self', ds) \<Longrightarrow> length (refills es self) = length es"
proof (induction es arbitrary: self ds)
  case Nil then show ?case by simp
next
  case (Cons e es)
  from draws_Cons_cases[OF Cons.prems] obtain s1 k f ds' where
    d: "draw e self = Inr (s1, k, f)" and r: "draws es s1 = Inr (self', ds')"
    and ds: "ds = (k, f) # ds'" by blast
  from Cons.IH[OF r] d show ?case by simp
qed

lemma draws_split:
  assumes "draws (es1 @ es2) self = Inr (self', ds)"
  shows "\<exists>s. draws es1 self = Inr (s, take (length es1) ds) \<and>
             draws es2 s = Inr (self', drop (length es1) ds) \<and>
             refills (es1 @ es2) self = refills es1 self @ refills es2 s"
  using assms
proof (induction es1 arbitrary: self ds)
  case Nil then show ?case by simp
next
  case (Cons e es)
  from Cons.prems have "draws (e # (es @ es2)) self = Inr (self', ds)" by simp
  from draws_Cons_cases[OF this] obtain s1 k f ds' where
    d: "draw e self = Inr (s1, k, f)" and r: "draws (es @ es2) s1 = Inr (self', ds')"
    and ds: "ds = (k, f) # ds'" by blast
  from Cons.IH[OF r] obtain s where a: "draws es s1 = Inr (s, take (length es) ds')"
    and b: "draws es2 s = Inr (self', drop (length es) ds')"
    and c: "refills (es @ es2) s1 = refills es s1 @ refills es2 s" by blast
  have "draws (e # es) self = Inr (s, take (length (e # es)) ds)" using d a ds by simp
  moreover have "draws es2 s = Inr (self', drop (length (e # es)) ds)" using b ds by simp
  moreover have "refills ((e # es) @ es2) self = refills (e # es) self @ refills es2 s"
    using d c by simp
  ultimately show ?case by blast
qed

lemma draw_no_refill_used:
  assumes "draw e self = Inr (s1, k, f)" "files self \<noteq> []"
  shows "used_files s1 = used_files self @ [f]"
proof -
  from draw_cases[OF assms(1)] obtain self1 where r: "refill e self = Inr self1"
    and s: "s1 = self1\<lparr>files := AList.delete k (files self1),
                         used_files := used_files self1 @ [f]\<rparr>" by blast
  from refill_cases[OF r] assms(2) have "self1 = self" by auto
  with s show ?thesis by simp
qed

lemma draws_no_refill_used:
  "draws es self = Inr (self', ds) \<Longrightarrow> \<forall>i < length es. \<not> refills es self ! i \<Longrightarrow>
   used_files self' = used_files self @ map snd ds"
proof (induction es arbitrary: self ds)
  case Nil then show ?case by simp
next
  case (Cons e es)
  from draws_Cons_cases[OF Cons.prems(1)] obtain s1 k f ds' where
    d: "draw e self = Inr (s1, k, f)" and r: "draws es s1 = Inr (self', ds')"
    and ds: "ds = (k, f) # ds'" by blast
  from Cons.prems(2) have "\<not> refills (e # es) self ! 0" by blast
  then have ne: "files self \<noteq> []" by simp
  have nr: "\<forall>i < length es. \<not> refills es s1 ! i"
  proof (intro allI impI)
    fix i assume "i < length es"
    then have "Suc i < length (e # es)" by simp
    with Cons.prems(2) have "\<not> refills (e # es) self ! Suc i" by blast
    with d show "\<not> refills es s1 ! i" by simp
  qed
  from Cons.IH[OF r nr] draw_no_refill_used[OF d ne] ds show ?case by simp
qed

lemma draws_segment:
  assumes i: "feeder_inv self" and d: "draws es self = Inr (self', ds)"
    and nr: "\<forall>i. 0 < i \<and> i < length es \<longrightarrow> \<not> refills es self ! i"
  shows "distinct (map snd ds) \<and> snd ` set ds \<inter> snd ` set (files self') = {}"
proof (cases es)
  case Nil with d show ?thesis by simp
next
  case (Cons e es')
  from draws_Cons_cases[OF d[unfolded Cons]] obtain s1 k f ds' where
    d1: "draw e self = Inr (s1, k, f)" and r: "draws es' s1 = Inr (self', ds')"
    and ds: "ds = (k, f) # ds'" by blast
  have nr': "\<forall>i < length es'. \<not> refills es' s1 ! i"
  proof (intro allI impI)
    fix i assume "i < length es'"
    then have "0 < Suc i \<and> Suc i < length es" using Cons by simp
    with nr have "\<not> refills es self ! Suc i" by blast
    with d1 Cons show "\<not> refills es' s1 ! i" by simp
  qed
  from draws_no_refill_used[OF r nr'] have u: "used_files self' = used_files s1 @ map snd ds'" .
  from draw_used[OF d1] obtain pre where p: "used_files s1 = pre @ [f]" by auto
  from u p ds have u': "used_files self' = pre @ map snd ds" by simp
  have inv: "feeder_inv self'" using draws_inv[OF i d] .
  from feeder_inv_distinct[OF inv] u' have "distinct (map snd ds)" by simp
  moreover from feeder_inv_disjoint[OF inv] u' have "snd ` set ds \<inter> snd ` set (files self') = {}"
    by auto
  ultimately show ?thesis by simp
qed

lemma draws_between:
  assumes i: "feeder_inv self0" and d: "draws es self0 = Inr (self, ds)"
    and ab: "a \<le> b" and b: "b < length ds"
    and nr: "\<forall>i. a < i \<and> i \<le> b \<longrightarrow> \<not> refills es self0 ! i"
  shows "(\<forall>i j. a \<le> i \<and> i < j \<and> j \<le> b \<longrightarrow> snd (ds ! i) \<noteq> snd (ds ! j)) \<and>
         (\<exists>s. draws (take (Suc b) es) self0 = Inr (s, take (Suc b) ds) \<and>
              (\<forall>i. a \<le> i \<and> i \<le> b \<longrightarrow> snd (ds ! i) \<notin> snd ` set (files s)))"
proof -
  have le: "length ds = length es" using draws_length[OF d] .
  let ?es1 = "take a es" and ?es2 = "drop a (take (Suc b) es)" and ?es3 = "drop (Suc b) es"
  have e: "es = take (Suc b) es @ ?es3" by simp
  have l12: "length (take (Suc b) es) = Suc b" using b le by simp
  from d e have "draws (take (Suc b) es @ ?es3) self0 = Inr (self, ds)" by simp
  from draws_split[OF this] l12 obtain s where
    s: "draws (take (Suc b) es) self0 = Inr (s, take (Suc b) ds)"
    and rs: "refills es self0 = refills (take (Suc b) es) self0 @ refills ?es3 s" by auto
  have e2: "take (Suc b) es = ?es1 @ ?es2" using ab
    by (metis append_take_drop_id le_SucI min.absorb1 take_take)
  have l1: "length ?es1 = a" using ab b le by simp
  from s e2 have "draws (?es1 @ ?es2) self0 = Inr (s, take (Suc b) ds)" by simp
  from draws_split[OF this] l1 obtain sa where
    sa: "draws ?es1 self0 = Inr (sa, take a (take (Suc b) ds))"
    and s2: "draws ?es2 sa = Inr (s, drop a (take (Suc b) ds))"
    and r2: "refills (?es1 @ ?es2) self0 = refills ?es1 self0 @ refills ?es2 sa" by auto
  have inv: "feeder_inv sa" using draws_inv[OF i sa] .
  have lr1: "length (refills ?es1 self0) = a" using refills_length[OF sa] l1 by simp
  have lr2: "length (refills ?es2 sa) = Suc b - a" using refills_length[OF s2] b le by simp
  have nr2: "\<forall>i. 0 < i \<and> i < length ?es2 \<longrightarrow> \<not> refills ?es2 sa ! i"
  proof (intro allI impI)
    fix i assume h: "0 < i \<and> i < length ?es2"
    then have r: "a < a + i \<and> a + i \<le> b" using b le by auto
    have lt: "a + i < length (refills ?es1 self0 @ refills ?es2 sa)" using lr1 lr2 r by simp
    have "refills es self0 = (refills ?es1 self0 @ refills ?es2 sa) @ refills ?es3 s"
      using rs r2 e2 by simp
    then have "refills es self0 ! (a + i) = (refills ?es1 self0 @ refills ?es2 sa) ! (a + i)"
      using lt by (simp only: nth_append if_True)
    also have "\<dots> = refills ?es2 sa ! i" using lr1 by (simp add: nth_append)
    finally show "\<not> refills ?es2 sa ! i" using nr r by blast
  qed
  let ?ds2 = "drop a (take (Suc b) ds)"
  from draws_segment[OF inv s2 nr2] have dd: "distinct (map snd ?ds2)"
    and dj: "snd ` set ?ds2 \<inter> snd ` set (files s) = {}" by simp_all
  have ld2: "length ?ds2 = Suc b - a" using b by simp
  have nth2: "\<And>i. a \<le> i \<Longrightarrow> i \<le> b \<Longrightarrow> ?ds2 ! (i - a) = ds ! i" using b by simp
  have A: "\<forall>i j. a \<le> i \<and> i < j \<and> j \<le> b \<longrightarrow> snd (ds ! i) \<noteq> snd (ds ! j)"
  proof (intro allI impI)
    fix i j assume h: "a \<le> i \<and> i < j \<and> j \<le> b"
    then have li: "i - a < length (map snd ?ds2)" and lj: "j - a < length (map snd ?ds2)"
      and ne: "i - a \<noteq> j - a"
      using ld2 by auto
    from nth_eq_iff_index_eq[OF dd li lj] ne
    have "map snd ?ds2 ! (i - a) \<noteq> map snd ?ds2 ! (j - a)" by blast
    moreover have "map snd ?ds2 ! (i - a) = snd (ds ! i)"
    proof -
      have "i - a < length ?ds2" using h ld2 by (simp only:) arith
      from nth_map[OF this, of snd] nth2[of i] h show ?thesis by (simp only:) simp
    qed
    moreover have "map snd ?ds2 ! (j - a) = snd (ds ! j)"
    proof -
      have "j - a < length ?ds2" using h ld2 by (simp only:) arith
      from nth_map[OF this, of snd] nth2[of j] h show ?thesis by (simp only:) simp
    qed
    ultimately show "snd (ds ! i) \<noteq> snd (ds ! j)" by simp
  qed
  have B: "\<forall>i. a \<le> i \<and> i \<le> b \<longrightarrow> snd (ds ! i) \<notin> snd ` set (files s)"
  proof (intro allI impI)
    fix i assume h: "a \<le> i \<and> i \<le> b"
    then have "i - a < length ?ds2" using ld2 by auto
    then have "?ds2 ! (i - a) \<in> set ?ds2" by (rule nth_mem)
    with nth2[of i] h have "ds ! i \<in> set ?ds2" by simp
    then have "snd (ds ! i) \<in> snd ` set ?ds2" by (rule imageI)
    with dj show "snd (ds ! i) \<notin> snd ` set (files s)" by blast
  qed
  from A s B show ?thesis by blast
qed


lemma draws_single:
  "draws [e] s0 = Inr (s, ds) \<Longrightarrow> \<exists>k f. draw e s0 = Inr (s, k, f) \<and> ds = [(k, f)]"
  by (auto split: sum.splits prod.splits)

lemma draws_last:
  assumes d: "draws es self0 = Inr (self, ds)" and b: "b < length ds"
  shows "\<exists>s0 s1 s. draws (take b es) self0 = Inr (s0, take b ds) \<and>
            refill (es ! b) s0 = Inr s1 \<and> ds ! b \<in> set (files s1) \<and>
            draws (take (Suc b) es) self0 = Inr (s, take (Suc b) ds) \<and>
            files s = AList.delete (fst (ds ! b)) (files s1)"
proof -
  have le: "length ds = length es" using draws_length[OF d] .
  have e: "es = take (Suc b) es @ drop (Suc b) es" by simp
  have l12: "length (take (Suc b) es) = Suc b" using b le by simp
  from d e have "draws (take (Suc b) es @ drop (Suc b) es) self0 = Inr (self, ds)" by simp
  from draws_split[OF this] l12 obtain s where
    s: "draws (take (Suc b) es) self0 = Inr (s, take (Suc b) ds)" by auto
  have e2: "take (Suc b) es = take b es @ [es ! b]" using b le by (simp add: take_Suc_conv_app_nth)
  have l1: "length (take b es) = b" using b le by simp
  from s e2 have "draws (take b es @ [es ! b]) self0 = Inr (s, take (Suc b) ds)" by simp
  from draws_split[OF this] l1 obtain s0 where
    s0: "draws (take b es) self0 = Inr (s0, take b (take (Suc b) ds))"
    and s2: "draws [es ! b] s0 = Inr (s, drop b (take (Suc b) ds))" by auto
  have t: "take b (take (Suc b) ds) = take b ds" by simp
  have dr: "drop b (take (Suc b) ds) = [ds ! b]" using b by (simp add: take_Suc_conv_app_nth)
  from draws_single[OF s2] obtain k f where
    d1: "draw (es ! b) s0 = Inr (s, k, f)"
    and ds: "drop b (take (Suc b) ds) = [(k, f)]" by blast
  from ds dr have kf: "ds ! b = (k, f)" by simp
  from draw_cases[OF d1] obtain s1 where rf: "refill (es ! b) s0 = Inr s1"
    and m: "map_of (files s1) k = Some f"
    and st: "s = s1\<lparr>files := AList.delete k (files s1),
                         used_files := used_files s1 @ [f]\<rparr>" by blast
  from m have "(k, f) \<in> set (files s1)" by (rule map_of_SomeD)
  with kf have mem: "ds ! b \<in> set (files s1)" by simp
  from st kf have fs: "files s = AList.delete (fst (ds ! b)) (files s1)" by simp
  from s0 t rf mem s fs show ?thesis by auto
qed

lemma map_of_fold_update:
  "map_of (fold (\<lambda>(k, v) d. AList.update k v d) xs d) = map_of (rev xs @ d)"
proof (induction xs arbitrary: d)
  case Nil then show ?case by simp
next
  case (Cons x xs)
  obtain k v where x: "x = (k, v)" by (cases x)
  show ?case unfolding x by (simp add: Cons.IH update_conv')
qed

lemma map_of_make_files:
  "map_of (make_files fl) = map_of (rev (zip (map (split_first CHR ''.'') fl) fl))"
  unfolding make_files_def by (simp add: map_of_fold_update)

lemma refills_append:
  "draws es self = Inr (self', ds) \<Longrightarrow>
   refills (es @ es2) self = refills es self @ refills es2 self'"
proof (induction es arbitrary: self ds)
  case Nil then show ?case by simp
next
  case (Cons e es)
  from draws_Cons_cases[OF Cons.prems] obtain s1 k f ds' where
    d: "draw e self = Inr (s1, k, f)" and r: "draws es s1 = Inr (self', ds')" by blast
  from Cons.IH[OF r] d show ?case by simp
qed

lemma refills_single: "refills [e] self = [length (files self) = 0]"
  by (simp split: sum.splits prod.splits)










lemma example_init:
  "init (Some example_listing) ''train'' batch n symbols 4 2 = Inr (example_feeder batch n symbols)"
  by (simp add: init_def example_listing_def example_feeder_def make_files_def split_first_def)

section \<open>The properties\<close>




text \<open>
  Claim C3. For a directory listing of \<open>fileCount\<close> entries and a positive batch size,
  \<^verbatim>\<open>__len__\<close> of the feeder that the constructor builds is
  \<open>fileCount div batchSize\<close>, the floor of the quotient, at construction and
  after any number of draws: the count it uses is the number of entries that the
  constructor listed, whatever a later refill finds in the directory.
\<close>

theorem len_floor:
  assumes "init (Some file_list) directory batch n symbols width height = Inr self0"
    and "draws es self0 = Inr (self, ds)"
    and "0 < batch"
  shows "len self0 = Inr (int (length file_list) div batch) \<and>
         len self = Inr (int (length file_list) div batch) \<and>
         count self = length file_list"
proof -
  from assms(1) have c: "count self0 = length file_list" and b: "batch_size self0 = batch"
    by (auto simp: init_def)
  from draws_count[OF assms(2)] c b have c': "count self = length file_list"
    and b': "batch_size self = batch" by simp_all
  have "\<lfloor>real (length file_list) / real_of_int batch\<rfloor> = int (length file_list) div batch"
    using floor_divide_of_int_eq[of "int (length file_list)" batch, where ?'a = real] by simp
  with c b c' b' assms(3) show ?thesis by (simp add: len_def)
qed

text \<open>Two files in batches of three: no full batch, before and after three draws.\<close>

theorem len_floor_witness:
  "len (example_feeder 3 2 ''ab'') = Inr (int (length example_listing) div 3) \<and>
   len (example_after 3 2 ''ab'') = Inr (int (length example_listing) div 3) \<and>
   count (example_after 3 2 ''ab'') = length example_listing"
proof -
  have i: "init (Some example_listing) ''train'' 3 2 ''ab'' 4 2 = Inr (example_feeder 3 2 ''ab'')"
    by (rule example_init)
  have d: "draws (map example_env [0..<3]) (example_feeder 3 2 ''ab'') =
     Inr (example_after 3 2 ''ab'',
          [(''ab_0'', ''ab_0.png''), (''ba_1'', ''ba_1.png''), (''ab_0'', ''ab_0.png'')])"
    by code_simp
  have b: "(0::int) < 3" by simp
  show ?thesis by (rule len_floor[OF i d b])
qed

text \<open>
  Claim C2. Take any run of draws that starts at the constructor, and in it the draws
  \<open>a\<close> to \<open>b\<close> such that none of the draws \<open>a + 1\<close> to \<open>b\<close> finds the pool
  empty: they lie between two consecutive refills. Then no two of them give the same
  file name. Draw \<open>b\<close> chooses an entry of the pool it finds (after the refill, if
  it is the one that refills) and leaves that pool without the key chosen, and none
  of the file names drawn from \<open>a\<close> to \<open>b\<close> is in the pool that draw \<open>b\<close> leaves.
\<close>

theorem draws_no_repeat:
  assumes i: "init listing directory batch n symbols width height = Inr self0"
    and d: "draws es self0 = Inr (self, ds)"
    and ab: "a \<le> b" and b: "b < length ds"
    and nr: "\<forall>i. a < i \<and> i \<le> b \<longrightarrow> \<not> refills es self0 ! i"
  shows "(\<forall>i j. a \<le> i \<and> i < j \<and> j \<le> b \<longrightarrow> snd (ds ! i) \<noteq> snd (ds ! j)) \<and>
         (\<exists>s0 s1 s. draws (take b es) self0 = Inr (s0, take b ds) \<and>
            refill (es ! b) s0 = Inr s1 \<and> ds ! b \<in> set (files s1) \<and>
            draws (take (Suc b) es) self0 = Inr (s, take (Suc b) ds) \<and>
            files s = AList.delete (fst (ds ! b)) (files s1) \<and>
            (\<forall>i. a \<le> i \<and> i \<le> b \<longrightarrow> snd (ds ! i) \<notin> snd ` set (files s)))"
proof -
  from draws_between[OF init_inv[OF i] d ab b nr] obtain s where
    A: "\<forall>i j. a \<le> i \<and> i < j \<and> j \<le> b \<longrightarrow> snd (ds ! i) \<noteq> snd (ds ! j)"
    and s: "draws (take (Suc b) es) self0 = Inr (s, take (Suc b) ds)"
    and B: "\<forall>i. a \<le> i \<and> i \<le> b \<longrightarrow> snd (ds ! i) \<notin> snd ` set (files s)" by blast
  from draws_last[OF d b] obtain s0 s1 s' where
    s0: "draws (take b es) self0 = Inr (s0, take b ds)"
    and rf: "refill (es ! b) s0 = Inr s1" and mem: "ds ! b \<in> set (files s1)"
    and s': "draws (take (Suc b) es) self0 = Inr (s', take (Suc b) ds)"
    and fs: "files s' = AList.delete (fst (ds ! b)) (files s1)" by blast
  from s s' have "s' = s" by simp
  with fs have fs2: "files s = AList.delete (fst (ds ! b)) (files s1)" by simp
  from A s0 rf mem s fs2 B show ?thesis by blast
qed

text \<open>Three draws from the two files: the first two are different, and the pool is
  refilled before the third, which repeats the first.\<close>

theorem draws_no_repeat_witness:
  "''ab_0.png'' \<noteq> ''ba_1.png'' \<and>
   (\<exists>s0 s1 (s :: ImageSequence).
      draws (take 1 (map example_env [0..<3])) (example_feeder 3 2 ''ab'') =
        Inr (s0, take 1 [(''ab_0'', ''ab_0.png''), (''ba_1'', ''ba_1.png''), (''ab_0'', ''ab_0.png'')]) \<and>
      refill (map example_env [0..<3] ! 1) s0 = Inr s1 \<and>
      (''ba_1'', ''ba_1.png'') \<in> set (files s1) \<and>
      files s = AList.delete ''ba_1'' (files s1) \<and>
      ''ab_0.png'' \<notin> snd ` set (files s) \<and> ''ba_1.png'' \<notin> snd ` set (files s))"
proof -
  let ?ds = "[(''ab_0'', ''ab_0.png''), (''ba_1'', ''ba_1.png''), (''ab_0'', ''ab_0.png'')]"
  let ?es = "map example_env [0..<3]"
  have d: "draws ?es (example_feeder 3 2 ''ab'') = Inr (example_after 3 2 ''ab'', ?ds)"
    by code_simp
  have r: "refills ?es (example_feeder 3 2 ''ab'') = [False, False, True]" by code_simp
  have ab: "(0::nat) \<le> 1" by simp
  have b: "1 < length ?ds" by simp
  have nr: "\<forall>i. 0 < i \<and> i \<le> 1 \<longrightarrow> \<not> refills ?es (example_feeder 3 2 ''ab'') ! i"
  proof (intro allI impI)
    fix i :: nat assume "0 < i \<and> i \<le> 1"
    then have "i = 1" by simp
    with r show "\<not> refills ?es (example_feeder 3 2 ''ab'') ! i" by simp
  qed
  from draws_no_repeat[OF example_init d ab b nr] obtain s0 s1 and s :: ImageSequence where
    A: "\<forall>i j. 0 \<le> i \<and> i < j \<and> j \<le> 1 \<longrightarrow> snd (?ds ! i) \<noteq> snd (?ds ! j)"
    and s0: "draws (take 1 ?es) (example_feeder 3 2 ''ab'') = Inr (s0, take 1 ?ds)"
    and rf: "refill (?es ! 1) s0 = Inr s1" and mem: "?ds ! 1 \<in> set (files s1)"
    and fs: "files s = AList.delete (fst (?ds ! 1)) (files s1)"
    and B: "\<forall>i. 0 \<le> i \<and> i \<le> 1 \<longrightarrow> snd (?ds ! i) \<notin> snd ` set (files s)"
    by (elim exE conjE) (rule that)
  from A have a1: "snd (?ds ! 0) \<noteq> snd (?ds ! 1)" by blast
  then have a2: "''ab_0.png'' \<noteq> ''ba_1.png''" by simp
  from B have "snd (?ds ! 0) \<notin> snd ` set (files s)" by blast
  then have b0: "''ab_0.png'' \<notin> snd ` set (files s)" by simp
  from B have "snd (?ds ! 1) \<notin> snd ` set (files s)" by blast
  then have b1: "''ba_1.png'' \<notin> snd ` set (files s)"
    by simp
  from mem have mem': "(''ba_1'', ''ba_1.png'') \<in> set (files s1)"
    by simp
  from fs have fs': "files s = AList.delete ''ba_1'' (files s1)"
    by simp
  from a2 s0 rf mem' fs' b0 b1 show ?thesis by (intro exI conjI)
qed

text \<open>
  Claim C5. When a batch is larger than the pool of \<open>m\<close> entries it starts with, and
  is produced, then sample \<open>i\<close> of the batch is the file of draw \<open>i\<close>: \<open>X[i]\<close> is its
  image and row \<open>i\<close> of the label arrays encodes its label. The first \<open>m\<close> draws are
  exactly the entries of the pool, and iteration \<open>m\<close>, which finds the pool empty,
  lists the directory again, rebuilds the whole pool from that listing, clears
  \<open>used_files\<close> and draws sample \<open>m\<close> from the new pool: the batch holds samples of
  two generations.
\<close>

theorem getitem_refill_mid_batch:
  assumes g: "getitem self idx allocate env = Inr (self', X, y)"
    and dk: "distinct (map fst (files self))"
    and m: "m = length (files self)" and mB: "m < nat (batch_size self)"
  shows "\<exists>ds file_list s.
           draws (map env [0..<nat (batch_size self)]) self = Inr (self', ds) \<and>
           length ds = nat (batch_size self) \<and> length X = nat (batch_size self) \<and>
           (\<forall>i < nat (batch_size self).
              load_image (env i) (snd (ds ! i)) = Some (X ! i) \<and>
              (\<forall>j < length (split_first CHR ''_'' (fst (ds ! i))).
                 \<exists>c. np_index (length (captcha_symbols self))
                        (str_find (captcha_symbols self)
                           (split_first CHR ''_'' (fst (ds ! i)) ! j)) = Inr c \<and>
                     y ! j ! i = (replicate (length (captcha_symbols self)) 0)[c := 1])) \<and>
           set (take m ds) = set (files self) \<and>
           listdir (env m) = Some file_list \<and>
           draws (map env [0..<Suc m]) self = Inr (s, take (Suc m) ds) \<and>
           ds ! m \<in> set (make_files file_list) \<and>
           files s = AList.delete (fst (ds ! m)) (make_files file_list) \<and>
           used_files s = [snd (ds ! m)]"
proof -
  let ?B = "nat (batch_size self)"
  from getitem_shape[OF g] obtain ds where
    d: "draws (map env [0..<?B]) self = Inr (self', ds)" and l: "length ds = ?B" by blast
  from getitem_shape[OF g] have lX: "length X = ?B" by simp
  from draws_refill[OF d dk m mB] obtain file_list s where
    a: "set (take m ds) = set (files self)" and b: "listdir (env m) = Some file_list"
    and c: "draws (map env [0..<Suc m]) self = Inr (s, take (Suc m) ds)"
    and e: "ds ! m \<in> set (make_files file_list)"
    and f: "files s = AList.delete (fst (ds ! m)) (make_files file_list)"
    and u: "used_files s = [snd (ds ! m)]" by blast
  have r: "\<forall>i < ?B. load_image (env i) (snd (ds ! i)) = Some (X ! i) \<and>
              (\<forall>j < length (split_first CHR ''_'' (fst (ds ! i))).
                 \<exists>c. np_index (length (captcha_symbols self))
                        (str_find (captcha_symbols self)
                           (split_first CHR ''_'' (fst (ds ! i)) ! j)) = Inr c \<and>
                     y ! j ! i = (replicate (length (captcha_symbols self)) 0)[c := 1])"
  proof (intro allI impI)
    fix i assume i: "i < ?B"
    from getitem_images[OF g d] i have "load_image (env i) (snd (ds ! i)) = Some (X ! i)" by simp
    moreover from getitem_prefix[OF g order_refl d i] have
      "\<forall>j < length (split_first CHR ''_'' (fst (ds ! i))).
                 \<exists>c. np_index (length (captcha_symbols self))
                        (str_find (captcha_symbols self)
                           (split_first CHR ''_'' (fst (ds ! i)) ! j)) = Inr c \<and>
                     y ! j ! i = (replicate (length (captcha_symbols self)) 0)[c := 1]" by simp
    ultimately show "load_image (env i) (snd (ds ! i)) = Some (X ! i) \<and>
              (\<forall>j < length (split_first CHR ''_'' (fst (ds ! i))).
                 \<exists>c. np_index (length (captcha_symbols self))
                        (str_find (captcha_symbols self)
                           (split_first CHR ''_'' (fst (ds ! i)) ! j)) = Inr c \<and>
                     y ! j ! i = (replicate (length (captcha_symbols self)) 0)[c := 1])" by simp
  qed
  from d l lX r a b c e f u show ?thesis by blast
qed

text \<open>A batch of three from a pool of two: the third sample is drawn after the refill.\<close>

theorem getitem_refill_mid_batch_witness:
  "\<exists>ds file_list (s :: ImageSequence).
     draws (map example_env [0..<nat (batch_size (example_feeder 3 2 ''ab''))])
       (example_feeder 3 2 ''ab'') = Inr (example_after 3 2 ''ab'', ds) \<and>
     length ds = nat (batch_size (example_feeder 3 2 ''ab'')) \<and>
     load_image (example_env 2) (snd (ds ! 2)) = Some 7 \<and>
     set (take 2 ds) = set (files (example_feeder 3 2 ''ab'')) \<and>
     listdir (example_env 2) = Some file_list \<and>
     ds ! 2 \<in> set (make_files file_list) \<and>
     used_files s = [snd (ds ! 2)]"
proof -
  have g: "getitem (example_feeder 3 2 ''ab'') 0 example_allocate example_env =
     Inr (example_after 3 2 ''ab'', [7, 7, 7],
          [[[1, 0], [0, 1], [1, 0]], [[0, 1], [1, 0], [0, 1]]])" by code_simp
  have dk: "distinct (map fst (files (example_feeder 3 2 ''ab'')))"
    by (simp add: example_feeder_def)
  have m: "2 = length (files (example_feeder 3 2 ''ab''))" by (simp add: example_feeder_def)
  have mB: "2 < nat (batch_size (example_feeder 3 2 ''ab''))" by (simp add: example_feeder_def)
  from getitem_refill_mid_batch[OF g dk m mB] obtain ds file_list and s :: ImageSequence where
    "draws (map example_env [0..<nat (batch_size (example_feeder 3 2 ''ab''))])
       (example_feeder 3 2 ''ab'') = Inr (example_after 3 2 ''ab'', ds)"
    "length ds = nat (batch_size (example_feeder 3 2 ''ab''))"
    "\<forall>i < nat (batch_size (example_feeder 3 2 ''ab'')).
       load_image (example_env i) (snd (ds ! i)) = Some ([7, 7, 7] ! i) \<and>
       (\<forall>j < length (split_first CHR ''_'' (fst (ds ! i))).
          \<exists>c. np_index (length (captcha_symbols (example_feeder 3 2 ''ab'')))
                 (str_find (captcha_symbols (example_feeder 3 2 ''ab''))
                    (split_first CHR ''_'' (fst (ds ! i)) ! j)) = Inr c \<and>
              [[[1, 0], [0, 1], [1, 0]], [[0, 1], [1, 0], [0, 1]]] ! j ! i =
              (replicate (length (captcha_symbols (example_feeder 3 2 ''ab''))) (0 :: 8 word))[c := 1])"
    "set (take 2 ds) = set (files (example_feeder 3 2 ''ab''))"
    "listdir (example_env 2) = Some file_list"
    "ds ! 2 \<in> set (make_files file_list)"
    "used_files s = [snd (ds ! 2)]"
    by (elim exE conjE) (rule that)
  note r = this
  from r(3) mB have "load_image (example_env 2) (snd (ds ! 2)) = Some 7" by simp
  with r(1,2,4,5,6,7) show ?thesis by (intro exI conjI)
qed

text \<open>
  Claim C9. The constructor counts every entry of the listing, and keys the pool by
  the text before the first \<open>.\<close>: the keys of the pool are the prefixes of the
  entries, each once, and a key maps to the last entry of the listing that has this
  prefix. So when two entries of the listing have the same prefix, the pool is smaller
  than the count that \<^verbatim>\<open>__len__\<close> uses; as many draws as the pool has entries,
  fewer than the count, empty it, and the draw after them finds it empty and refills
  it; no draw changes the count; and if the two entries are different names, they are
  never in the pool together.
\<close>

theorem pool_keyed_by_prefix:
  assumes ini: "init (Some file_list) directory batch n symbols width height = Inr self"
    and ij: "i < j" "j < length file_list"
    and same: "split_first CHR ''.'' (file_list ! i) = split_first CHR ''.'' (file_list ! j)"
  shows "count self = length file_list \<and>
         distinct (map fst (files self)) \<and>
         fst ` set (files self) = split_first CHR ''.'' ` set file_list \<and>
         map_of (files self) =
           map_of (rev (zip (map (split_first CHR ''.'') file_list) file_list)) \<and>
         length (files self) < count self \<and>
         (\<forall>es e. length es = length (files self) \<longrightarrow>
            (\<exists>self' ds. draws es self = Inr (self', ds) \<and> files self' = [] \<and>
               refills (es @ [e]) self ! length es)) \<and>
         (\<forall>es self' ds. draws es self = Inr (self', ds) \<longrightarrow> count self' = count self \<and>
            (file_list ! i \<noteq> file_list ! j \<longrightarrow>
               \<not> (file_list ! i \<in> snd ` set (files self') \<and>
                  file_list ! j \<in> snd ` set (files self'))))"
proof -
  from ini have f: "files self = make_files file_list" and c: "count self = length file_list"
    by (auto simp: init_def)
  have a: "length (files self) < count self"
    unfolding f c length_make_files using card_image_collision[OF ij same] .
  have inv0: "feeder_inv self" using init_inv[OF ini] .
  then have dk: "distinct (map fst (files self))" by (simp add: feeder_inv_def pool_ok_def)
  have ks: "fst ` set (files self) = split_first CHR ''.'' ` set file_list"
    unfolding f by (rule keys_make_files)
  have mo: "map_of (files self) =
           map_of (rev (zip (map (split_first CHR ''.'') file_list) file_list))"
    unfolding f by (rule map_of_make_files)
  have b: "\<exists>self' ds. draws es self = Inr (self', ds) \<and> files self' = [] \<and>
               refills (es @ [e]) self ! length es"
    if "length es = length (files self)" for es :: "'a env list" and e
  proof -
    from that have "length es \<le> length (files self)" by simp
    from draws_exhaust[OF dk this] that obtain self' ds where
      d: "draws es self = Inr (self', ds)" and e: "files self' = []" by auto
    have "refills (es @ [e]) self = refills es self @ [length (files self') = 0]"
      using refills_append[OF d, of "[e]"] by (simp only: refills_single)
    moreover have "length (refills es self) = length es" using refills_length[OF d] .
    ultimately have "refills (es @ [e]) self ! length es" using e by (simp add: nth_append)
    with d e show ?thesis by blast
  qed
  have cc: "count self' = count self \<and>
            (file_list ! i \<noteq> file_list ! j \<longrightarrow>
               \<not> (file_list ! i \<in> snd ` set (files self') \<and>
                  file_list ! j \<in> snd ` set (files self')))"
    if dr: "draws es self = Inr (self', ds)" for es :: "'b env list" and self' ds
  proof -
    have inv: "feeder_inv self'" using draws_inv[OF inv0 dr] .
    then have po: "pool_ok (files self')" by (simp add: feeder_inv_def)
    have "False" if ne: "file_list ! i \<noteq> file_list ! j"
      and p1: "file_list ! i \<in> snd ` set (files self')"
      and p2: "file_list ! j \<in> snd ` set (files self')"
    proof -
      from p1 obtain k1 where k1: "(k1, file_list ! i) \<in> set (files self')" by auto
      from p2 obtain k2 where k2: "(k2, file_list ! j) \<in> set (files self')" by auto
      from po k1 have "k1 = split_first CHR ''.'' (file_list ! i)" by (auto simp: pool_ok_def)
      moreover from po k2 have "k2 = split_first CHR ''.'' (file_list ! j)" by (auto simp: pool_ok_def)
      ultimately have "k1 = k2" using same by simp
      with po k1 k2 have "file_list ! i = file_list ! j"
        unfolding pool_ok_def by (metis eq_key_imp_eq_value)
      with ne show False by simp
    qed
    with draws_count[OF dr] show ?thesis by blast
  qed
  from c dk ks mo a b cc show ?thesis by blast
qed

text \<open>Two images of the same name in different formats: the count is 2, and the pool
  has the one key \<open>ab_0\<close>, for the second file.\<close>

theorem pool_keyed_by_prefix_witness:
  "\<exists>self. init (Some [''ab_0.png'', ''ab_0.jpg'']) ''train'' 1 2 ''ab'' 4 2 = Inr self \<and>
      count self = 2 \<and> fst ` set (files self) = {''ab_0''} \<and>
      map_of (files self) ''ab_0'' = Some ''ab_0.jpg'' \<and>
      length (files self) < count self"
proof -
  obtain self where i: "init (Some [''ab_0.png'', ''ab_0.jpg'']) ''train'' 1 2 ''ab'' 4 2 = Inr self"
    by (simp add: init_def)
  have ij: "(0::nat) < 1" "1 < length [''ab_0.png'', ''ab_0.jpg'']" by simp_all
  have same: "split_first CHR ''.'' ([''ab_0.png'', ''ab_0.jpg''] ! 0) =
              split_first CHR ''.'' ([''ab_0.png'', ''ab_0.jpg''] ! 1)"
    by (simp add: split_first_def)
  note t = pool_keyed_by_prefix[OF i ij same]
  from t have c: "count self = length [''ab_0.png'', ''ab_0.jpg'']" by (rule conjunct1)
  from t have k: "fst ` set (files self) = split_first CHR ''.'' ` set [''ab_0.png'', ''ab_0.jpg'']"
    by (elim conjE)
  from t have m: "map_of (files self) =
      map_of (rev (zip (map (split_first CHR ''.'') [''ab_0.png'', ''ab_0.jpg''])
                 [''ab_0.png'', ''ab_0.jpg'']))" by (elim conjE)
  from t have l: "length (files self) < count self" by (elim conjE)
  from c have c': "count self = 2" by simp
  from k have k': "fst ` set (files self) = {''ab_0''}" by (simp add: split_first_def)
  from m have m': "map_of (files self) ''ab_0'' = Some ''ab_0.jpg''" by (simp add: split_first_def)
  from i c' k' m' l show ?thesis by (intro exI conjI)
qed

text \<open>
  Claim C1, as the code has it. \<^verbatim>\<open>str.find\<close> answers \<open>-1\<close> for a character that is
  not in the alphabet, and index \<open>-1\<close> of a row is its last entry. So in every batch
  that is produced, if the character at position \<open>j\<close> of the label of sample \<open>i\<close>
  does not occur in the alphabet, then the alphabet is not empty and row \<open>i\<close> of
  array \<open>j\<close> is zero everywhere except for a 1 in its last entry.
\<close>

theorem getitem_unmapped_character:
  assumes "getitem self idx allocate env = Inr (self', X, y)"
    and "draws (map env [0..<nat (batch_size self)]) self = Inr (self2, ds)"
    and "i < length ds"
    and "j < length (split_first CHR ''_'' (fst (ds ! i)))"
    and "split_first CHR ''_'' (fst (ds ! i)) ! j \<notin> set (captcha_symbols self)"
  shows "captcha_symbols self \<noteq> [] \<and>
         y ! j ! i = (replicate (length (captcha_symbols self)) 0)
                        [length (captcha_symbols self) - 1 := 1]"
proof -
  from getitem_shape[OF assms(1)] assms(2) have "length ds = nat (batch_size self)" by auto
  with assms(3) have i: "i < nat (batch_size self)" by simp
  from getitem_prefix[OF assms(1) order_refl assms(2) i] assms(4) obtain c where
    np: "np_index (length (captcha_symbols self))
           (str_find (captcha_symbols self) (split_first CHR ''_'' (fst (ds ! i)) ! j)) = Inr c"
    and row: "y ! j ! i = (replicate (length (captcha_symbols self)) 0)[c := 1]" by blast
  from np str_find_notin[OF assms(5)] have
    np': "np_index (length (captcha_symbols self)) (- 1) = Inr c" by simp
  then have "c < length (captcha_symbols self)" by (rule np_index_less)
  then have ne: "0 < length (captcha_symbols self)" by (cases "captcha_symbols self") auto
  from np' np_index_not_found[OF ne] have "c = length (captcha_symbols self) - 1" by simp
  with row ne show ?thesis by auto
qed

text \<open>
  Claim C1 as stated, that the row is left all zero, fails: with the alphabet \<open>xa\<close>
  and the label \<open>ab\<close>, the row for \<open>b\<close> is \<open>[0, 1]\<close>.
\<close>

theorem getitem_unmapped_character_counterexample:
  "getitem (example_feeder 1 2 ''xa'') 0 example_allocate example_env =
     Inr (example_after 1 2 ''xa'', [7], [[[0, 1]], [[0, 1]]]) \<and>
   split_first CHR ''_'' ''ab_0'' ! 1 = CHR ''b'' \<and> CHR ''b'' \<notin> set ''xa'' \<and>
   [[[0, 1]], [[0, 1 :: 8 word]]] ! 1 ! 0 \<noteq> [0, 0]"
proof -
  have "getitem (example_feeder 1 2 ''xa'') 0 example_allocate example_env =
     Inr (example_after 1 2 ''xa'', [7], [[[0, 1]], [[0, 1]]])" by code_simp
  then show ?thesis by (simp add: split_first_def)
qed

text \<open>The same batch: the alphabet \<open>xa\<close>, and the character \<open>b\<close> at position 1.\<close>

theorem getitem_unmapped_character_witness:
  "captcha_symbols (example_feeder 1 2 ''xa'') \<noteq> [] \<and>
   [[[0, 1]], [[0, 1 :: 8 word]]] ! 1 ! 0 =
     (replicate (length (captcha_symbols (example_feeder 1 2 ''xa''))) 0)
        [length (captcha_symbols (example_feeder 1 2 ''xa'')) - 1 := 1]"
proof -
  have g: "getitem (example_feeder 1 2 ''xa'') 0 example_allocate example_env =
     Inr (example_after 1 2 ''xa'', [7], [[[0, 1]], [[0, 1]]])" by code_simp
  have d: "draws (map example_env [0..<nat (batch_size (example_feeder 1 2 ''xa''))])
             (example_feeder 1 2 ''xa'') =
     Inr (example_after 1 2 ''xa'', [(''ab_0'', ''ab_0.png'')])" by code_simp
  have i: "0 < length [(''ab_0'', ''ab_0.png'')]" by simp
  have j: "1 < length (split_first CHR ''_'' (fst ([(''ab_0'', ''ab_0.png'')] ! 0)))"
    by (simp add: split_first_def)
  have c: "split_first CHR ''_'' (fst ([(''ab_0'', ''ab_0.png'')] ! 0)) ! 1
             \<notin> set (captcha_symbols (example_feeder 1 2 ''xa''))"
    by (simp add: split_first_def example_feeder_def)
  show ?thesis by (rule getitem_unmapped_character[OF g d i j c])
qed

text \<open>
  Claim C4. In every batch that is produced, if each label drawn has exactly
  \<open>captcha_length\<close> characters, all of them in the alphabet, then the labels are
  \<open>captcha_length\<close> arrays of \<open>batch_size\<close> rows of as many entries as the alphabet
  has characters; every row sums to 1; and row \<open>i\<close> of array \<open>j\<close> is zero except
  for a 1 at an index where the alphabet has the character at position \<open>j\<close> of the
  label of sample \<open>i\<close>.
\<close>

theorem getitem_one_hot:
  assumes "getitem self idx allocate env = Inr (self', X, y)"
    and "draws (map env [0..<nat (batch_size self)]) self = Inr (self2, ds)"
    and "\<forall>(k, f) \<in> set ds. int (length (split_first CHR ''_'' k)) = captcha_length self \<and>
            set (split_first CHR ''_'' k) \<subseteq> set (captcha_symbols self)"
  shows "length y = nat (captcha_length self) \<and>
         (\<forall>a \<in> set y. length a = nat (batch_size self) \<and>
            (\<forall>row \<in> set a. length row = length (captcha_symbols self) \<and>
                             sum_list (map unat row) = 1)) \<and>
         (\<forall>j < nat (captcha_length self). \<forall>i < nat (batch_size self).
            \<exists>c < length (captcha_symbols self).
               captcha_symbols self ! c = split_first CHR ''_'' (fst (ds ! i)) ! j \<and>
               y ! j ! i = (replicate (length (captcha_symbols self)) 0)[c := 1])"
proof -
  let ?B = "nat (batch_size self)" and ?n = "length (captcha_symbols self)"
  let ?L = "nat (captcha_length self)"
  from getitem_shape[OF assms(1)] assms(2) have ly: "length y = ?L"
    and ws: "well_shaped ?B ?n y" and lds: "length ds = ?B" by auto
  have pos: "\<exists>c < ?n. captcha_symbols self ! c = split_first CHR ''_'' (fst (ds ! i)) ! j \<and>
               y ! j ! i = (replicate ?n 0)[c := 1]" if j: "j < ?L" and i: "i < ?B" for i j
  proof -
    let ?lab = "split_first CHR ''_'' (fst (ds ! i))"
    have "ds ! i \<in> set ds" using i lds by simp
    with assms(3) have ll: "int (length ?lab) = captcha_length self"
      and sub: "set ?lab \<subseteq> set (captcha_symbols self)" by (auto simp: case_prod_beta)
    from ll j have jl: "j < length ?lab" by simp
    with sub have mem: "?lab ! j \<in> set (captcha_symbols self)" by auto
    from getitem_prefix[OF assms(1) order_refl assms(2) i] jl obtain c where
      np: "np_index ?n (str_find (captcha_symbols self) (?lab ! j)) = Inr c"
      and row: "y ! j ! i = (replicate ?n 0)[c := 1]" by blast
    from str_find_in[OF mem] str_find_range[of "captcha_symbols self" "?lab ! j"] np
    have c: "c = nat (str_find (captcha_symbols self) (?lab ! j))"
      by (auto simp: np_index_def split: if_splits)
    with str_find_nth[OF mem] have "captcha_symbols self ! c = ?lab ! j" by simp
    with np_index_less[OF np] row show ?thesis by blast
  qed
  have rows: "length a = ?B \<and> (\<forall>row \<in> set a. length row = ?n \<and> sum_list (map unat row) = 1)"
    if a: "a \<in> set y" for a
  proof -
    from a obtain j where j: "j < length y" and aj: "a = y ! j" by (auto simp: in_set_conv_nth)
    have la: "length a = ?B" using ws a by (simp add: well_shaped_def)
    have "length row = ?n \<and> sum_list (map unat row) = 1" if r: "row \<in> set a" for row
    proof -
      from r obtain i where i: "i < length a" and ri: "row = a ! i" by (auto simp: in_set_conv_nth)
      from pos[of j i] j ly i la obtain c where "c < ?n" "y ! j ! i = (replicate ?n 0)[c := 1]"
        by auto
      with ri aj show ?thesis by (simp add: sum_one_hot)
    qed
    with la show ?thesis by blast
  qed
  from ly rows pos show ?thesis by blast
qed

text \<open>A batch of three with the alphabet \<open>ab\<close> and labels of length 2.\<close>

theorem getitem_one_hot_witness:
  "length [[[1, 0], [0, 1], [1, 0]], [[0, 1], [1, 0], [0, 1 :: 8 word]]] =
     nat (captcha_length (example_feeder 3 2 ''ab''))"
proof -
  have g: "getitem (example_feeder 3 2 ''ab'') 0 example_allocate example_env =
     Inr (example_after 3 2 ''ab'', [7, 7, 7],
          [[[1, 0], [0, 1], [1, 0]], [[0, 1], [1, 0], [0, 1]]])" by code_simp
  have d: "draws (map example_env [0..<nat (batch_size (example_feeder 3 2 ''ab''))])
             (example_feeder 3 2 ''ab'') =
     Inr (example_after 3 2 ''ab'',
          [(''ab_0'', ''ab_0.png''), (''ba_1'', ''ba_1.png''), (''ab_0'', ''ab_0.png'')])"
    by code_simp
  have l: "\<forall>(k, f) \<in> set [(''ab_0'', ''ab_0.png''), (''ba_1'', ''ba_1.png''), (''ab_0'', ''ab_0.png'')].
            int (length (split_first CHR ''_'' k)) = captcha_length (example_feeder 3 2 ''ab'') \<and>
            set (split_first CHR ''_'' k) \<subseteq> set (captcha_symbols (example_feeder 3 2 ''ab''))"
    by (simp add: split_first_def example_feeder_def)
  show ?thesis using getitem_one_hot[OF g d l] by (rule conjunct1)
qed



text \<open>
  Claim C6. If any of the nine required flags is missing, \<^verbatim>\<open>main\<close> prints the
  message of the first one missing in the order of its checks, and nothing else, exits
  with status 1, and makes no call at all: no model is built and nothing is trained.
\<close>

theorem main_missing_flag:
  assumes "args_width a = None \<or> args_height a = None \<or> args_length a = None \<or>
           args_batch_size a = None \<or> args_epochs a = None \<or> args_train_dataset a = None \<or>
           args_validate_dataset a = None \<or> args_output_model_name a = None \<or>
           args_symbols a = None"
  shows "\<exists>msg. first_missing a = Some msg \<and> main a w = ([Print msg], Exit 1) \<and>
           (\<forall>c. Call c \<notin> set (fst (main a w)))"
proof (cases "args_width a")
  case None
  then show ?thesis by (simp add: main_def first_missing_def)
next
  case s0: (Some width)
  show ?thesis
  proof (cases "args_height a")
    case None
    with s0 show ?thesis by (simp add: main_def first_missing_def)
  next
    case s1: (Some height)
    show ?thesis
    proof (cases "args_length a")
      case None
      with s0 s1 show ?thesis by (simp add: main_def first_missing_def)
    next
      case s2: (Some clen)
      show ?thesis
      proof (cases "args_batch_size a")
        case None
        with s0 s1 s2 show ?thesis by (simp add: main_def first_missing_def)
      next
        case s3: (Some batch)
        show ?thesis
        proof (cases "args_epochs a")
          case None
          with s0 s1 s2 s3 show ?thesis by (simp add: main_def first_missing_def)
        next
          case s4: (Some epochs)
          show ?thesis
          proof (cases "args_train_dataset a")
            case None
            with s0 s1 s2 s3 s4 show ?thesis by (simp add: main_def first_missing_def)
          next
            case s5: (Some train_dataset)
            show ?thesis
            proof (cases "args_validate_dataset a")
              case None
              with s0 s1 s2 s3 s4 s5 show ?thesis by (simp add: main_def first_missing_def)
            next
              case s6: (Some validate_dataset)
              show ?thesis
              proof (cases "args_output_model_name a")
                case None
                with s0 s1 s2 s3 s4 s5 s6 show ?thesis by (simp add: main_def first_missing_def)
              next
                case s7: (Some output_model_name)
                show ?thesis
                proof (cases "args_symbols a")
                  case None
                  with s0 s1 s2 s3 s4 s5 s6 s7 show ?thesis by (simp add: main_def first_missing_def)
                next
                  case s8: (Some symbols)
                  with s0 s1 s2 s3 s4 s5 s6 s7 s8 assms show ?thesis by simp
                qed
              qed
            qed
          qed
        qed
      qed
    qed
  qed
qed

text \<open>All flags but \<open>height\<close>.\<close>

theorem main_missing_flag_witness:
  "main (example_args\<lparr>args_height := None\<rparr>) example_world =
     ([Print ''Please specify the captcha image height''], Exit 1)"
proof -
  have a: "args_width (example_args\<lparr>args_height := None\<rparr>) = None \<or>
           args_height (example_args\<lparr>args_height := None\<rparr>) = None \<or>
           args_length (example_args\<lparr>args_height := None\<rparr>) = None \<or>
           args_batch_size (example_args\<lparr>args_height := None\<rparr>) = None \<or>
           args_epochs (example_args\<lparr>args_height := None\<rparr>) = None \<or>
           args_train_dataset (example_args\<lparr>args_height := None\<rparr>) = None \<or>
           args_validate_dataset (example_args\<lparr>args_height := None\<rparr>) = None \<or>
           args_output_model_name (example_args\<lparr>args_height := None\<rparr>) = None \<or>
           args_symbols (example_args\<lparr>args_height := None\<rparr>) = None" by simp
  from main_missing_flag[OF a, of example_world] obtain msg where
    m: "first_missing (example_args\<lparr>args_height := None\<rparr>) = Some msg"
    and r: "main (example_args\<lparr>args_height := None\<rparr>) example_world = ([Print msg], Exit 1)"
    by blast
  from m have "msg = ''Please specify the captcha image height''"
    by (simp add: first_missing_def example_args_def)
  with r show ?thesis by simp
qed




end
